theory Spec2Isabelle
  imports Main "HOL-Library.Sublist"
begin

section \<open>Data: bytes, text and errors\<close>

text \<open>
  A Python \<open>bytes\<close> value is a list of 8-bit characters; a Python \<open>str\<close> is a list of
  Unicode code points (natural numbers), since \<open>str.strip\<close> looks at code points beyond
  one byte. \<open>lit\<close> turns an ASCII literal of the source into a \<open>str\<close>.
\<close>

type_synonym bytes = "char list"
type_synonym codepoint = nat
type_synonym str = "codepoint list"

definition lit :: "string \<Rightarrow> str" where
  "lit s = map of_char s"

definition LF :: char where "LF = CHR 0x0A"

definition TAB :: codepoint where "TAB = 9"
definition NL :: codepoint where "NL = 10"
definition CR :: codepoint where "CR = 13"
definition SLASH :: codepoint where "SLASH = 47"
definition LBRACE :: codepoint where "LBRACE = 123"

datatype error = IndexError

text \<open>
  The library functions the program calls but does not define: the UTF-8 decoder with
  \<open>errors='replace'\<close> (it never raises), \<open>gzip.compress\<close> with its level, and
  \<open>os.path.abspath\<close>, which depends on the working directory of the process.
\<close>

record lib =
  decode :: "bytes \<Rightarrow> str"
  gzip_compress :: "bytes \<Rightarrow> int \<Rightarrow> bytes"
  abspath :: "str \<Rightarrow> str"

section \<open>String operations of the Python library\<close>

text \<open>\<open>str.isspace\<close> on one code point (the whitespace table of CPython).\<close>

definition isspace :: "codepoint \<Rightarrow> bool" where
  "isspace c = ((9 \<le> c \<and> c \<le> 13) \<or> (28 \<le> c \<and> c \<le> 32) \<or> c = 133 \<or> c = 160
     \<or> c = 5760 \<or> (8192 \<le> c \<and> c \<le> 8202) \<or> c = 8232 \<or> c = 8233
     \<or> c = 8239 \<or> c = 8287 \<or> c = 12288)"

text \<open>\<open>s.rstrip(chars)\<close>, \<open>s.lstrip()\<close> and \<open>s.strip()\<close>.\<close>

definition rstrip_chars :: "str \<Rightarrow> str \<Rightarrow> str" where
  "rstrip_chars s chars = rev (dropWhile (\<lambda>c. c \<in> set chars) (rev s))"

definition lstrip :: "str \<Rightarrow> str" where
  "lstrip s = dropWhile isspace s"

definition rstrip :: "str \<Rightarrow> str" where
  "rstrip s = rev (dropWhile isspace (rev s))"

definition strip :: "str \<Rightarrow> str" where
  "strip s = rstrip (lstrip s)"

text \<open>\<open>s.find(c)\<close> for a one-character \<open>c\<close>: the first index, or -1.\<close>

fun str_find :: "str \<Rightarrow> codepoint \<Rightarrow> int" where
  "str_find [] c = - 1"
| "str_find (x # xs) c =
     (if x = c then 0
      else (let i = str_find xs c in if i = - 1 then - 1 else i + 1))"

text \<open>The slice \<open>s[:i]\<close>; a negative \<open>i\<close> counts from the end.\<close>

definition slice_to :: "str \<Rightarrow> int \<Rightarrow> str" where
  "slice_to s i = (if i < 0 then take (nat (int (length s) + i)) s else take (nat i) s)"

text \<open>\<open>s.replace(old, new)\<close>: every non-overlapping occurrence, from the left.\<close>

function str_replace :: "str \<Rightarrow> str \<Rightarrow> str \<Rightarrow> str" where
  "str_replace s old new =
     (if old = [] then new @ concat (map (\<lambda>c. c # new) s)
      else if s = [] then []
      else if prefix old s then new @ str_replace (drop (length old) s) old new
      else hd s # str_replace (tl s) old new)"
  by pat_completeness auto
termination
  by (relation "measure (\<lambda>(s, old, new). length s)") auto

declare str_replace.simps [simp del]

definition endswith :: "str \<Rightarrow> str \<Rightarrow> bool" where
  "endswith s suf = suffix suf s"

definition startswith :: "str \<Rightarrow> str \<Rightarrow> bool" where
  "startswith s pre = prefix pre s"

text \<open>\<open>os.path.join(a, b)\<close> and \<open>os.path.basename(p)\<close> (posixpath).\<close>

definition path_join :: "str \<Rightarrow> str \<Rightarrow> str" where
  "path_join a b =
     (if startswith b [SLASH] then b
      else if a = [] \<or> endswith a [SLASH] then a @ b
      else a @ [SLASH] @ b)"

definition basename :: "str \<Rightarrow> str" where
  "basename p = rev (takeWhile (\<lambda>c. c \<noteq> SLASH) (rev p))"

text \<open>Decimal formatting: \<open>{n}\<close> for an integer and \<open>{n:02d}\<close>.\<close>

fun str_nat :: "nat \<Rightarrow> str" where
  "str_nat n = (if n < 10 then [48 + n] else str_nat (n div 10) @ [48 + n mod 10])"

declare str_nat.simps [simp del]

definition str_int :: "int \<Rightarrow> str" where
  "str_int i = (if i < 0 then 45 # str_nat (nat (- i)) else str_nat (nat i))"

definition fmt_02d :: "int \<Rightarrow> str" where
  "fmt_02d i = (let d = str_int i in replicate (2 - length d) 48 @ d)"

section \<open>extract_prejson\<close>

definition extract_prejson :: "(bytes \<Rightarrow> str) \<Rightarrow> bytes \<Rightarrow> str" where
  "extract_prejson dec line_bytes =
     (let line = rstrip_chars (dec line_bytes) [CR, NL];
          idx = str_find line LBRACE
      in if idx \<noteq> - 1 then strip (slice_to line idx) else strip line)"

section \<open>Reading lines and stream_chunks_from_input\<close>

text \<open>
  Iterating a binary file yields its lines, each ending with its line feed, the last one
  possibly without. \<open>cur\<close> is the line read so far.
\<close>

fun iter_lines :: "bytes \<Rightarrow> bytes \<Rightarrow> bytes list" where
  "iter_lines cur [] = (if cur = [] then [] else [cur])"
| "iter_lines cur (b # bs) =
     (if b = LF then (cur @ [b]) # iter_lines [] bs else iter_lines (cur @ [b]) bs)"

text \<open>
  The generator, as the list of the pairs it yields: \<open>chunk\<close> and \<open>chunk_idx\<close> are its two
  local variables, the last argument the lines still to read.
\<close>

fun gen_chunks :: "int \<Rightarrow> bytes list \<Rightarrow> nat \<Rightarrow> bytes list \<Rightarrow> (nat \<times> bytes list) list" where
  "gen_chunks chunk_size chunk chunk_idx [] =
     (if chunk \<noteq> [] then [(chunk_idx, chunk)] else [])"
| "gen_chunks chunk_size chunk chunk_idx (line # rest) =
     (let chunk' = chunk @ [line]
      in if int (length chunk') \<ge> chunk_size
         then (chunk_idx, chunk') # gen_chunks chunk_size [] (chunk_idx + 1) rest
         else gen_chunks chunk_size chunk' chunk_idx rest)"

definition stream_chunks_from_input :: "bytes \<Rightarrow> int \<Rightarrow> (nat \<times> bytes list) list" where
  "stream_chunks_from_input input chunk_size = gen_chunks chunk_size [] 0 (iter_lines [] input)"

section \<open>Configuration, run state and output\<close>

text \<open>
  \<open>shard_size_mb\<close> is an integer, or \<open>float('inf')\<close> when \<open>main\<close> is given
  \<open>--single-shard\<close>.
\<close>

datatype size_mb = Finite int | Infinity

record config =
  output_dir :: str
  shard_size_mb :: size_mb
  chunk_size :: int
  base :: "str option"
  compress_level :: int

text \<open>
  The local variables of \<open>cdxj_to_zipnum\<close> that its loop changes. A file opened for
  writing is the bytes written to it so far: \<open>current_raw_fh\<close> is the open shard,
  \<open>closed_fhs\<close> the shards closed before it in the order of \<open>created_shards\<close>, and
  \<open>idxf\<close> the list of the strings given to \<open>idxf.write\<close>.
\<close>

record state =
  created_shards :: "str list"
  current_shard :: nat
  current_raw_fh :: bytes
  closed_fhs :: "bytes list"
  idx_buffer :: "str list"
  idxf :: "str list"

text \<open>The five values that line 178 formats into one index line.\<close>

record idx_entry =
  entry_key :: str
  entry_shard :: str
  entry_offset :: int
  entry_length :: int
  entry_number :: int

text \<open>
  What a run leaves behind: the shard files (path and content) in the order of
  \<open>created_shards\<close>, the text of the index file and the text of the location file.
\<close>

record run_output =
  shard_files :: "(str \<times> bytes) list"
  idx_file :: str
  loc_file :: str

definition tell :: "bytes \<Rightarrow> int" where
  "tell fh = int (length fh)"

definition fwrite :: "bytes \<Rightarrow> bytes \<Rightarrow> bytes" where
  "fwrite fh data = fh @ data"

definition idx_buffer_size :: int where
  "idx_buffer_size = 100"

section \<open>cdxj_to_zipnum\<close>

text \<open>Lines 112-113: the base name, from the output directory when none is given.\<close>

definition resolve_base :: "lib \<Rightarrow> config \<Rightarrow> str" where
  "resolve_base L cfg =
     (case base cfg of
        None \<Rightarrow> (let b = basename (abspath L (output_dir cfg))
                 in if b \<noteq> [] then b else lit ''zipnum-output'')
      | Some b \<Rightarrow> b)"

definition get_shard_path :: "lib \<Rightarrow> config \<Rightarrow> nat \<Rightarrow> bool \<Rightarrow> str" where
  "get_shard_path L cfg shard_num is_single =
     (if is_single
      then path_join (output_dir cfg) (resolve_base L cfg @ lit ''.cdx.gz'')
      else path_join (output_dir cfg)
             (resolve_base L cfg @ lit ''-'' @ fmt_02d (int shard_num + 1) @ lit ''.cdx.gz''))"

text \<open>Line 124, and the comparison of line 186 (nothing reaches infinity).\<close>

definition target_shard_size :: "size_mb \<Rightarrow> size_mb" where
  "target_shard_size m = (case m of Finite k \<Rightarrow> Finite (k * 1024 * 1024) | Infinity \<Rightarrow> Infinity)"

definition reached :: "int \<Rightarrow> size_mb \<Rightarrow> bool" where
  "reached off t = (case t of Finite k \<Rightarrow> off \<ge> k | Infinity \<Rightarrow> False)"

text \<open>Line 178: the index line.\<close>

definition idx_line :: "idx_entry \<Rightarrow> str" where
  "idx_line e =
     entry_key e @ [TAB] @ entry_shard e @ [TAB] @ str_int (entry_offset e) @ [TAB]
       @ str_int (entry_length e) @ [TAB] @ str_int (entry_number e) @ [NL]"

text \<open>Lines 162-166: the open shard after the compressed chunk is written to it.\<close>

definition write_chunk :: "lib \<Rightarrow> config \<Rightarrow> state \<Rightarrow> bytes list \<Rightarrow> bytes" where
  "write_chunk L cfg st chunk_lines =
     (let chunk_data = concat chunk_lines;
          compressed_chunk = gzip_compress L chunk_data (compress_level cfg)
      in fwrite (current_raw_fh st) compressed_chunk)"

text \<open>
  Lines 157-178: the values of the index line of one chunk. \<open>chunk_lines[0]\<close> and
  \<open>created_shards[current_shard]\<close> raise IndexError out of range.
\<close>

definition chunk_entry :: "lib \<Rightarrow> config \<Rightarrow> state \<Rightarrow> bytes list \<Rightarrow> error + idx_entry" where
  "chunk_entry L cfg st chunk_lines =
     (let start_offset = tell (current_raw_fh st);
          end_offset = tell (write_chunk L cfg st chunk_lines);
          comp_len = end_offset - start_offset
      in case chunk_lines of
           [] \<Rightarrow> Inl IndexError
         | first # _ \<Rightarrow>
             (let pre = extract_prejson (decode L) first
              in if current_shard st < length (created_shards st)
                 then (let shard_basename = basename (created_shards st ! current_shard st);
                           shard_name_no_ext = str_replace shard_basename (lit ''.cdx.gz'') []
                       in Inr \<lparr>entry_key = pre, entry_shard = shard_name_no_ext,
                               entry_offset = start_offset, entry_length = comp_len,
                               entry_number = int (current_shard st) + 1\<rparr>)
                 else Inl IndexError))"

text \<open>Lines 180-182: write the buffer once it holds \<open>idx_buffer_size\<close> lines.\<close>

definition flush_full :: "state \<Rightarrow> state" where
  "flush_full st =
     (if int (length (idx_buffer st)) \<ge> idx_buffer_size
      then st\<lparr>idxf := idxf st @ [concat (idx_buffer st)], idx_buffer := []\<rparr>
      else st)"

text \<open>Lines 188-190: write a buffer that is not empty, and clear it.\<close>

definition flush_pending :: "state \<Rightarrow> state" where
  "flush_pending st =
     (if idx_buffer st \<noteq> []
      then st\<lparr>idxf := idxf st @ [concat (idx_buffer st)], idx_buffer := []\<rparr>
      else st)"

text \<open>Lines 187-202: close the shard and open the next one.\<close>

definition rollover :: "lib \<Rightarrow> config \<Rightarrow> state \<Rightarrow> state" where
  "rollover L cfg st =
     (let st1 = flush_pending st;
          n = current_shard st1 + 1
      in st1\<lparr>closed_fhs := closed_fhs st1 @ [current_raw_fh st1],
              current_shard := n,
              created_shards := created_shards st1 @ [get_shard_path L cfg n False],
              current_raw_fh := []\<rparr>)"

text \<open>Lines 156-202: the body of the loop, for one chunk.\<close>

definition process_chunk :: "lib \<Rightarrow> config \<Rightarrow> state \<Rightarrow> bytes list \<Rightarrow> error + state" where
  "process_chunk L cfg st chunk_lines =
     (case chunk_entry L cfg st chunk_lines of
        Inl err \<Rightarrow> Inl err
      | Inr e \<Rightarrow>
          (let st1 = st\<lparr>current_raw_fh := write_chunk L cfg st chunk_lines,
                         idx_buffer := idx_buffer st @ [idx_line e]\<rparr>;
               st2 = flush_full st1;
               end_offset = tell (current_raw_fh st2)
           in if reached end_offset (target_shard_size (shard_size_mb cfg))
              then Inr (rollover L cfg st2)
              else Inr st2))"

text \<open>Line 155: the loop over the pairs of the generator; the chunk index is not used.\<close>

fun loop :: "lib \<Rightarrow> config \<Rightarrow> state \<Rightarrow> (nat \<times> bytes list) list \<Rightarrow> error + state" where
  "loop L cfg st [] = Inr st"
| "loop L cfg st ((_, chunk_lines) # rest) =
     (case process_chunk L cfg st chunk_lines of
        Inl err \<Rightarrow> Inl err
      | Inr st' \<Rightarrow> loop L cfg st' rest)"

text \<open>Lines 205-206: the last write of the index file.\<close>

definition final_flush :: "state \<Rightarrow> state" where
  "final_flush st =
     (if idx_buffer st \<noteq> [] then st\<lparr>idxf := idxf st @ [concat (idx_buffer st)]\<rparr> else st)"

text \<open>Lines 215-218: the rename of a single shard, in the list of paths.\<close>

definition rename_single :: "lib \<Rightarrow> config \<Rightarrow> str list \<Rightarrow> str list" where
  "rename_single L cfg shards =
     (if length shards = 1 \<and> \<not> endswith (shards ! 0) (resolve_base L cfg @ lit ''.cdx.gz'')
      then shards[0 := get_shard_path L cfg 0 True]
      else shards)"

text \<open>Lines 227-231: one line of the location file.\<close>

definition loc_line :: "str \<Rightarrow> str" where
  "loc_line path =
     (let bn = basename path;
          shard_name = str_replace bn (lit ''.cdx.gz'') []
      in shard_name @ [TAB] @ bn @ [NL])"

definition finalize :: "lib \<Rightarrow> config \<Rightarrow> state \<Rightarrow> run_output" where
  "finalize L cfg st =
     (let shards = rename_single L cfg (created_shards st)
      in \<lparr>shard_files = zip shards (closed_fhs st @ [current_raw_fh st]),
          idx_file = concat (idxf st),
          loc_file = concat (map loc_line shards)\<rparr>)"

definition initial_state :: "lib \<Rightarrow> config \<Rightarrow> state" where
  "initial_state L cfg =
     \<lparr>created_shards = [get_shard_path L cfg 0 False], current_shard = 0,
      current_raw_fh = [], closed_fhs = [], idx_buffer = [], idxf = []\<rparr>"

definition cdxj_to_zipnum :: "lib \<Rightarrow> config \<Rightarrow> bytes \<Rightarrow> error + run_output" where
  "cdxj_to_zipnum L cfg input =
     (case loop L cfg (initial_state L cfg) (stream_chunks_from_input input (chunk_size cfg)) of
        Inl err \<Rightarrow> Inl err
      | Inr st \<Rightarrow> Inr (finalize L cfg (final_flush st)))"

section \<open>Notions used to state the properties\<close>

text \<open>The contents of the shard files of a state, in the order of \<open>created_shards\<close>.\<close>

definition shards_of :: "state \<Rightarrow> bytes list" where
  "shards_of st = closed_fhs st @ [current_raw_fh st]"

text \<open>
  The state the loop keeps between two chunks: one path per shard, the closed shards
  before the open one.
\<close>

definition wf_state :: "state \<Rightarrow> bool" where
  "wf_state st =
     (length (closed_fhs st) = current_shard st \<and>
      length (created_shards st) = Suc (current_shard st))"

text \<open>
  The entries that the loop formats into index lines, chunk after chunk: the history of
  line 178, read off the same \<open>chunk_entry\<close> and \<open>process_chunk\<close> that the loop runs.
\<close>

fun index_entries :: "lib \<Rightarrow> config \<Rightarrow> state \<Rightarrow> (nat \<times> bytes list) list \<Rightarrow> idx_entry list" where
  "index_entries L cfg st [] = []"
| "index_entries L cfg st ((_, chunk_lines) # rest) =
     (case chunk_entry L cfg st chunk_lines of
        Inl err \<Rightarrow> []
      | Inr e \<Rightarrow>
          (case process_chunk L cfg st chunk_lines of
             Inl err \<Rightarrow> []
           | Inr st' \<Rightarrow> e # index_entries L cfg st' rest))"

definition run_entries :: "lib \<Rightarrow> config \<Rightarrow> bytes \<Rightarrow> idx_entry list" where
  "run_entries L cfg input =
     index_entries L cfg (initial_state L cfg)
       (stream_chunks_from_input input (chunk_size cfg))"

text \<open>What a reader of the index fetches: \<open>len\<close> bytes of a shard from offset \<open>off\<close>.\<close>

definition byte_range :: "bytes \<Rightarrow> int \<Rightarrow> int \<Rightarrow> bytes" where
  "byte_range data off len = take (nat len) (drop (nat off) data)"

text \<open>The shard file that an index entry names by its 1-based shard number.\<close>

definition entry_range :: "bytes list \<Rightarrow> idx_entry \<Rightarrow> bytes" where
  "entry_range shards e =
     byte_range (shards ! nat (entry_number e - 1)) (entry_offset e) (entry_length e)"

text \<open>
  An index entry locates \<open>data\<close> in the shards: its shard exists, its range lies inside
  the shard, and the range holds \<open>data\<close>.
\<close>

definition located :: "bytes list \<Rightarrow> idx_entry \<Rightarrow> bytes \<Rightarrow> bool" where
  "located shards e data =
     (1 \<le> entry_number e \<and> nat (entry_number e - 1) < length shards \<and>
      0 \<le> entry_offset e \<and> entry_length e = int (length data) \<and>
      nat (entry_offset e) + length data \<le> length (shards ! nat (entry_number e - 1)) \<and>
      entry_range shards e = data)"

text \<open>Shard files only grow: every file of \<open>S\<close> is still there in \<open>S'\<close>, possibly longer.\<close>

definition extends :: "bytes list \<Rightarrow> bytes list \<Rightarrow> bool" where
  "extends S S' = (length S \<le> length S' \<and> (\<forall>k < length S. prefix (S ! k) (S' ! k)))"

text \<open>All shards so far carry their numbered name.\<close>

definition numbered_paths :: "lib \<Rightarrow> config \<Rightarrow> state \<Rightarrow> bool" where
  "numbered_paths L cfg st =
     (created_shards st = map (\<lambda>n. get_shard_path L cfg n False) [0 ..< Suc (current_shard st)])"

section \<open>Index emission without the batch buffer\<close>

text \<open>
  The index emitter as the specification words it for comparison: every index line is
  written to the index file at once, and there is no buffer. Everything else is the loop
  body of the source.
\<close>

definition process_chunk_immediate :: "lib \<Rightarrow> config \<Rightarrow> state \<Rightarrow> bytes list \<Rightarrow> error + state" where
  "process_chunk_immediate L cfg st chunk_lines =
     (case chunk_entry L cfg st chunk_lines of
        Inl err \<Rightarrow> Inl err
      | Inr e \<Rightarrow>
          (let st1 = st\<lparr>current_raw_fh := write_chunk L cfg st chunk_lines,
                         idxf := idxf st @ [idx_line e]\<rparr>;
               end_offset = tell (current_raw_fh st1);
               n = current_shard st1 + 1
           in if reached end_offset (target_shard_size (shard_size_mb cfg))
              then Inr (st1\<lparr>closed_fhs := closed_fhs st1 @ [current_raw_fh st1],
                             current_shard := n,
                             created_shards := created_shards st1 @ [get_shard_path L cfg n False],
                             current_raw_fh := []\<rparr>)
              else Inr st1))"

fun loop_immediate :: "lib \<Rightarrow> config \<Rightarrow> state \<Rightarrow> (nat \<times> bytes list) list \<Rightarrow> error + state" where
  "loop_immediate L cfg st [] = Inr st"
| "loop_immediate L cfg st ((_, chunk_lines) # rest) =
     (case process_chunk_immediate L cfg st chunk_lines of
        Inl err \<Rightarrow> Inl err
      | Inr st' \<Rightarrow> loop_immediate L cfg st' rest)"

definition cdxj_to_zipnum_immediate :: "lib \<Rightarrow> config \<Rightarrow> bytes \<Rightarrow> error + run_output" where
  "cdxj_to_zipnum_immediate L cfg input =
     (case loop_immediate L cfg (initial_state L cfg)
             (stream_chunks_from_input input (chunk_size cfg)) of
        Inl err \<Rightarrow> Inl err
      | Inr st \<Rightarrow> Inr (finalize L cfg st))"

text \<open>
  A state of the batched loop and a state of the loop without buffer agree on the shards,
  and the lines written or still buffered by the first are the lines written by the second.
\<close>

definition same_files :: "state \<Rightarrow> state \<Rightarrow> bool" where
  "same_files s t = (created_shards s = created_shards t \<and> current_shard s = current_shard t \<and>
     current_raw_fh s = current_raw_fh t \<and> closed_fhs s = closed_fhs t \<and>
     concat (idxf s) @ concat (idx_buffer s) = concat (idxf t))"

section \<open>A concrete library and configuration for the examples\<close>

text \<open>
  A stand-in for the library, to run the program on small inputs: text is decoded byte by
  byte, a compressed chunk is its data behind a one-byte header (\<open>gunzip_demo\<close> takes
  the header off), and paths are absolute below the root.
\<close>

definition demo_lib :: lib where
  "demo_lib = \<lparr>decode = map of_char, gzip_compress = (\<lambda>d lvl. CHR ''z'' # d),
               abspath = (\<lambda>p. SLASH # p)\<rparr>"

definition gunzip_demo :: "bytes \<Rightarrow> bytes" where
  "gunzip_demo c = tl c"

definition demo_cfg :: config where
  "demo_cfg = \<lparr>output_dir = lit ''out'', shard_size_mb = Infinity, chunk_size = 2,
               base = Some (lit ''x''), compress_level = 6\<rparr>"

definition demo_input :: bytes where
  "demo_input = ''a {1}'' @ [LF] @ ''b {2}'' @ [LF] @ ''c''"

text \<open>
  The key of a line is its text \<open>s\<close> trimmed to \<open>t\<close>: \<open>t\<close> is \<open>s\<close> without a
  run of whitespace at each end, and \<open>t\<close> itself neither starts nor ends with whitespace.
\<close>

definition trimmed_of :: "str \<Rightarrow> str \<Rightarrow> bool" where
  "trimmed_of s t =
     ((\<exists>a b. s = a @ t @ b \<and> list_all isspace a \<and> list_all isspace b) \<and>
      (t = [] \<or> (\<not> isspace (hd t) \<and> \<not> isspace (last t))))"

section \<open>Lemmas on strings, lines and chunks\<close>

lemma str_find_ge: "str_find s c \<ge> - 1"
  by (induction s) (auto simp: Let_def)

lemma str_find_notin: "(str_find s c = - 1) = (c \<notin> set s)"
proof (induction s)
  case Nil
  show ?case by simp
next
  case (Cons x xs)
  have "str_find xs c \<ge> - 1" by (rule str_find_ge)
  with Cons show ?case by (auto simp: Let_def)
qed

lemma str_find_take:
  "c \<in> set s \<Longrightarrow> take (nat (str_find s c)) s = takeWhile (\<lambda>x. x \<noteq> c) s \<and> 0 \<le> str_find s c"
proof (induction s)
  case Nil
  then show ?case by simp
next
  case (Cons x xs)
  show ?case
  proof (cases "x = c")
    case True
    then show ?thesis by simp
  next
    case False
    with Cons.prems have in_xs: "c \<in> set xs" by simp
    then have ne: "str_find xs c \<noteq> - 1" by (simp add: str_find_notin)
    from Cons.IH [OF in_xs] have ih: "take (nat (str_find xs c)) xs = takeWhile (\<lambda>x. x \<noteq> c) xs"
      and nn: "0 \<le> str_find xs c" by simp_all
    from False ne nn ih show ?thesis
      by (simp add: Let_def nat_add_distrib)
  qed
qed

lemma slice_to_find:
  "c \<in> set s \<Longrightarrow> slice_to s (str_find s c) = takeWhile (\<lambda>x. x \<noteq> c) s"
  using str_find_take [of c s] by (simp add: slice_to_def)

lemma rstrip_chars_decomp:
  "\<exists>t. s = rstrip_chars s chars @ t \<and> set t \<subseteq> set chars"
proof -
  have "rev s = takeWhile (\<lambda>c. c \<in> set chars) (rev s) @ dropWhile (\<lambda>c. c \<in> set chars) (rev s)"
    by simp
  then have "s = rev (dropWhile (\<lambda>c. c \<in> set chars) (rev s)) @ rev (takeWhile (\<lambda>c. c \<in> set chars) (rev s))"
    by (metis rev_append rev_rev_ident)
  moreover have "set (rev (takeWhile (\<lambda>c. c \<in> set chars) (rev s))) \<subseteq> set chars"
    by (auto dest: set_takeWhileD)
  ultimately show ?thesis unfolding rstrip_chars_def by blast
qed

lemma takeWhile_append_in:
  "c \<in> set a \<Longrightarrow> takeWhile (\<lambda>x. x \<noteq> c) (a @ b) = takeWhile (\<lambda>x. x \<noteq> c) a"
  by (induction a) auto

lemma rstrip_append_space: "list_all isspace t \<Longrightarrow> rstrip (a @ t) = rstrip a"
proof (induction t rule: rev_induct)
  case Nil
  show ?case by simp
next
  case (snoc x xs)
  then have "isspace x" "list_all isspace xs" by simp_all
  with snoc.IH show ?case by (simp add: rstrip_def)
qed

lemma lstrip_append:
  "lstrip (a @ t) = (if list_all isspace a then lstrip t else lstrip a @ t)"
  by (induction a) (auto simp: lstrip_def)

lemma lstrip_all_space: "list_all isspace t \<Longrightarrow> lstrip t = []"
  by (induction t) (auto simp: lstrip_def)

lemma rstrip_all_space: "list_all isspace t \<Longrightarrow> rstrip t = []"
  using rstrip_append_space [of t "[]"] by (simp add: rstrip_def)

lemma strip_append_space: "list_all isspace t \<Longrightarrow> strip (a @ t) = strip a"
proof (cases "list_all isspace a")
  case True
  assume "list_all isspace t"
  with True show ?thesis by (simp add: strip_def lstrip_append lstrip_all_space)
next
  case False
  assume "list_all isspace t"
  with False show ?thesis by (simp add: strip_def lstrip_append rstrip_append_space)
qed

lemma crlf_space: "set t \<subseteq> set [CR, NL] \<Longrightarrow> list_all isspace t"
  by (auto simp: list_all_iff CR_def NL_def isspace_def)

lemma extract_prejson_takeWhile:
  "extract_prejson dec l =
     (if LBRACE \<in> set (dec l) then strip (takeWhile (\<lambda>c. c \<noteq> LBRACE) (dec l)) else strip (dec l))"
proof -
  obtain t where t: "dec l = rstrip_chars (dec l) [CR, NL] @ t" "set t \<subseteq> set [CR, NL]"
    using rstrip_chars_decomp by blast
  let ?line = "rstrip_chars (dec l) [CR, NL]"
  have sp: "list_all isspace t" using t(2) by (rule crlf_space)
  have nb: "LBRACE \<notin> set t" using t(2) by (auto simp: CR_def NL_def LBRACE_def)
  have mem: "(LBRACE \<in> set ?line) = (LBRACE \<in> set (dec l))"
    using nb by (subst (2) t(1)) auto
  show ?thesis
  proof (cases "LBRACE \<in> set (dec l)")
    case True
    with mem have inl: "LBRACE \<in> set ?line" by simp
    have "takeWhile (\<lambda>c. c \<noteq> LBRACE) (dec l) = takeWhile (\<lambda>c. c \<noteq> LBRACE) ?line"
      using takeWhile_append_in [OF inl, of t] t(1) by simp
    with True inl show ?thesis
      by (simp add: extract_prejson_def Let_def str_find_notin slice_to_find)
  next
    case False
    with mem have "LBRACE \<notin> set ?line" by simp
    moreover have "strip ?line = strip (dec l)"
      using strip_append_space [OF sp, of ?line] t(1) by simp
    ultimately show ?thesis using False
      by (simp add: extract_prejson_def Let_def str_find_notin)
  qed
qed

lemma concat_iter_lines: "concat (iter_lines cur bs) = cur @ bs"
  by (induction bs arbitrary: cur) auto

lemma iter_lines_nonempty: "l \<in> set (iter_lines cur bs) \<Longrightarrow> l \<noteq> []"
  by (induction bs arbitrary: cur) (auto split: if_splits)

lemma concat_gen_chunks:
  "concat (map (\<lambda>p. concat (snd p)) (gen_chunks n chunk i ls)) = concat chunk @ concat ls"
  by (induction ls arbitrary: chunk i) (auto simp: Let_def)

lemma gen_chunks_lines:
  "concat (map snd (gen_chunks n chunk i ls)) = chunk @ ls"
  by (induction ls arbitrary: chunk i) (auto simp: Let_def)

lemma gen_chunks_nonempty: "p \<in> set (gen_chunks n chunk i ls) \<Longrightarrow> snd p \<noteq> []"
  by (induction ls arbitrary: chunk i) (auto simp: Let_def split: if_splits)

lemma ceil_step: "Suc c = n \<Longrightarrow> (c + k + n) div n = Suc ((k + n - Suc 0) div n)"
proof -
  assume "Suc c = n"
  then have n: "n = Suc c" by simp
  have "(k + c + Suc c) div Suc c = (k + c) div Suc c + 1"
    by (rule div_add_self2) simp
  then show ?thesis unfolding n by (simp add: ac_simps)
qed

lemma gen_chunks_length:
  "0 < n \<Longrightarrow> length chunk < n \<Longrightarrow>
   length (gen_chunks (int n) chunk i ls) = (length chunk + length ls + n - 1) div n"
proof (induction ls arbitrary: chunk i)
  case Nil
  show ?case
  proof (cases chunk)
    case Nil
    with \<open>0 < n\<close> show ?thesis by simp
  next
    case (Cons a list)
    with Nil.prems have "length list < n" by simp
    then have "(length list + n) div n = 1" using \<open>0 < n\<close> by (simp add: div_add_self2)
    with Cons show ?thesis by simp
  qed
next
  case (Cons l ls)
  show ?case
  proof (cases "Suc (length chunk) = n")
    case True
    have "(length chunk + length ls + n) div n = Suc ((length ls + n - Suc 0) div n)"
      using True by (rule ceil_step)
    with True Cons.prems Cons.IH [of "[]" "i + 1"] show ?thesis
      by (simp add: Let_def)
  next
    case False
    with Cons.prems have "Suc (length chunk) < n" by simp
    with Cons.prems Cons.IH [of "chunk @ [l]" i] show ?thesis
      by (simp add: Let_def)
  qed
qed

lemma gen_chunks_nonpos:
  "n \<le> 1 \<Longrightarrow> gen_chunks n [] i ls = gen_chunks 1 [] i ls"
  by (induction ls arbitrary: i) (simp_all add: Let_def)

lemma gen_chunks_one:
  "map snd (gen_chunks 1 [] i ls) = map (\<lambda>l. [l]) ls"
  by (induction ls arbitrary: i) (simp_all add: Let_def)

section \<open>One turn of the loop\<close>

lemma flush_full_fields [simp]:
  "current_raw_fh (flush_full st) = current_raw_fh st"
  "closed_fhs (flush_full st) = closed_fhs st"
  "current_shard (flush_full st) = current_shard st"
  "created_shards (flush_full st) = created_shards st"
  by (simp_all add: flush_full_def)

lemma flush_full_content:
  "concat (idxf (flush_full st)) @ concat (idx_buffer (flush_full st)) =
   concat (idxf st) @ concat (idx_buffer st)"
  by (simp add: flush_full_def)

lemma flush_pending_fields [simp]:
  "current_raw_fh (flush_pending st) = current_raw_fh st"
  "closed_fhs (flush_pending st) = closed_fhs st"
  "current_shard (flush_pending st) = current_shard st"
  "created_shards (flush_pending st) = created_shards st"
  "idx_buffer (flush_pending st) = []"
  by (simp_all add: flush_pending_def)

lemma flush_pending_content:
  "concat (idxf (flush_pending st)) = concat (idxf st) @ concat (idx_buffer st)"
  by (simp add: flush_pending_def)

lemma rollover_fields [simp]:
  "current_raw_fh (rollover L cfg st) = []"
  "closed_fhs (rollover L cfg st) = closed_fhs st @ [current_raw_fh st]"
  "current_shard (rollover L cfg st) = Suc (current_shard st)"
  "created_shards (rollover L cfg st) =
     created_shards st @ [get_shard_path L cfg (Suc (current_shard st)) False]"
  "idx_buffer (rollover L cfg st) = []"
  "concat (idxf (rollover L cfg st)) = concat (idxf st) @ concat (idx_buffer st)"
  by (simp_all add: rollover_def Let_def flush_pending_content)

lemma chunk_entry_ok:
  assumes "wf_state st" "chunk_lines \<noteq> []"
  shows "chunk_entry L cfg st chunk_lines =
     Inr \<lparr>entry_key = extract_prejson (decode L) (hd chunk_lines),
          entry_shard = str_replace (basename (created_shards st ! current_shard st)) (lit ''.cdx.gz'') [],
          entry_offset = int (length (current_raw_fh st)),
          entry_length = int (length (gzip_compress L (concat chunk_lines) (compress_level cfg))),
          entry_number = int (current_shard st) + 1\<rparr>"
  using assms
  by (cases chunk_lines) (simp_all add: chunk_entry_def wf_state_def Let_def tell_def write_chunk_def fwrite_def)

lemma step_facts:
  assumes wf: "wf_state st" and ne: "chunk_lines \<noteq> []"
  obtains s e where
    "process_chunk L cfg st chunk_lines = Inr s"
    "chunk_entry L cfg st chunk_lines = Inr e"
    "wf_state s"
    "entry_key e = extract_prejson (decode L) (hd chunk_lines)"
    "entry_shard e = str_replace (basename (created_shards st ! current_shard st)) (lit ''.cdx.gz'') []"
    "entry_offset e = int (length (current_raw_fh st))"
    "entry_length e = int (length (gzip_compress L (concat chunk_lines) (compress_level cfg)))"
    "entry_number e = int (current_shard st) + 1"
    "concat (idxf s) @ concat (idx_buffer s) = concat (idxf st) @ concat (idx_buffer st) @ idx_line e"
    "(\<not> reached (int (length (current_raw_fh st @ gzip_compress L (concat chunk_lines) (compress_level cfg))))
          (target_shard_size (shard_size_mb cfg)) \<and>
      current_shard s = current_shard st \<and> closed_fhs s = closed_fhs st \<and>
      created_shards s = created_shards st \<and>
      current_raw_fh s = current_raw_fh st @ gzip_compress L (concat chunk_lines) (compress_level cfg))
     \<or>
     (reached (int (length (current_raw_fh st @ gzip_compress L (concat chunk_lines) (compress_level cfg))))
          (target_shard_size (shard_size_mb cfg)) \<and>
      current_shard s = Suc (current_shard st) \<and>
      closed_fhs s = closed_fhs st @ [current_raw_fh st @ gzip_compress L (concat chunk_lines) (compress_level cfg)] \<and>
      created_shards s = created_shards st @ [get_shard_path L cfg (Suc (current_shard st)) False] \<and>
      current_raw_fh s = [] \<and> idx_buffer s = [])"
proof -
  let ?comp = "gzip_compress L (concat chunk_lines) (compress_level cfg)"
  let ?e = "\<lparr>entry_key = extract_prejson (decode L) (hd chunk_lines),
          entry_shard = str_replace (basename (created_shards st ! current_shard st)) (lit ''.cdx.gz'') [],
          entry_offset = int (length (current_raw_fh st)),
          entry_length = int (length ?comp),
          entry_number = int (current_shard st) + 1\<rparr>"
  let ?st1 = "st\<lparr>current_raw_fh := write_chunk L cfg st chunk_lines,
                   idx_buffer := idx_buffer st @ [idx_line ?e]\<rparr>"
  let ?st2 = "flush_full ?st1"
  let ?r = "reached (int (length (current_raw_fh st @ ?comp))) (target_shard_size (shard_size_mb cfg))"
  let ?s = "if ?r then rollover L cfg ?st2 else ?st2"
  have ce: "chunk_entry L cfg st chunk_lines = Inr ?e"
    using wf ne by (rule chunk_entry_ok)
  have wc: "write_chunk L cfg st chunk_lines = current_raw_fh st @ ?comp"
    by (simp add: write_chunk_def fwrite_def Let_def)
  have pc: "process_chunk L cfg st chunk_lines = Inr ?s"
    by (simp add: process_chunk_def ce Let_def tell_def wc)
  have c2: "concat (idxf ?st2) @ concat (idx_buffer ?st2) =
      concat (idxf st) @ concat (idx_buffer st) @ idx_line ?e"
    by (simp add: flush_full_content)
  have cont: "concat (idxf ?s) @ concat (idx_buffer ?s) =
      concat (idxf st) @ concat (idx_buffer st) @ idx_line ?e"
    using c2 by simp
  have wfs: "wf_state ?s" using wf by (simp add: wf_state_def)
  show ?thesis
    by (rule that [of ?s ?e]) (use pc ce wfs cont in \<open>simp_all add: wc\<close>)
qed

section \<open>Invariants of the loop\<close>

lemma extends_refl: "extends S S"
  by (simp add: extends_def)

lemma extends_trans: "extends A B \<Longrightarrow> extends B C \<Longrightarrow> extends A C"
  unfolding extends_def by (meson order_trans prefix_order.order_trans less_le_trans)

lemma byte_range_exact: "byte_range (a @ d @ b) (int (length a)) (int (length d)) = d"
  by (simp add: byte_range_def)

lemma byte_range_prefix:
  assumes "prefix x y" "0 \<le> off" "0 \<le> len" "nat off + nat len \<le> length x"
  shows "byte_range y off len = byte_range x off len"
proof -
  from assms(1) obtain z where y: "y = x @ z" by (auto simp: prefix_def)
  from assms(4) show ?thesis unfolding y byte_range_def by simp
qed

lemma located_extends:
  assumes loc: "located S e d" and ext: "extends S S'"
  shows "located S' e d"
proof -
  let ?k = "nat (entry_number e - 1)"
  from loc have k: "?k < length S" and n1: "1 \<le> entry_number e" and o0: "0 \<le> entry_offset e"
    and len: "entry_length e = int (length d)"
    and inside: "nat (entry_offset e) + length d \<le> length (S ! ?k)"
    and rng: "byte_range (S ! ?k) (entry_offset e) (entry_length e) = d"
    unfolding located_def entry_range_def by blast+
  from ext k have k': "?k < length S'" and pre: "prefix (S ! ?k) (S' ! ?k)"
    by (simp_all add: extends_def)
  from pre have le: "length (S ! ?k) \<le> length (S' ! ?k)" by (rule prefix_length_le)
  have "byte_range (S' ! ?k) (entry_offset e) (entry_length e) =
        byte_range (S ! ?k) (entry_offset e) (entry_length e)"
    using pre o0 inside len by (intro byte_range_prefix) simp_all
  with rng k' n1 o0 len inside le show ?thesis
    by (simp add: located_def entry_range_def)
qed

lemma step_shards:
  assumes wf: "wf_state st" and ne: "chunk_lines \<noteq> []"
    and pc: "process_chunk L cfg st chunk_lines = Inr s"
    and ce: "chunk_entry L cfg st chunk_lines = Inr e"
  shows "extends (shards_of st) (shards_of s)"
    and "located (shards_of s) e (gzip_compress L (concat chunk_lines) (compress_level cfg))"
    and "shards_of s ! current_shard st =
           shards_of st ! current_shard st @ gzip_compress L (concat chunk_lines) (compress_level cfg)"
proof -
  let ?comp = "gzip_compress L (concat chunk_lines) (compress_level cfg)"
  obtain s' e' where f:
    "process_chunk L cfg st chunk_lines = Inr s'"
    "chunk_entry L cfg st chunk_lines = Inr e'"
    "entry_offset e' = int (length (current_raw_fh st))"
    "entry_length e' = int (length ?comp)"
    "entry_number e' = int (current_shard st) + 1"
    "(current_shard s' = current_shard st \<and> closed_fhs s' = closed_fhs st \<and>
      current_raw_fh s' = current_raw_fh st @ ?comp)
     \<or>
     (current_shard s' = Suc (current_shard st) \<and>
      closed_fhs s' = closed_fhs st @ [current_raw_fh st @ ?comp] \<and>
      current_raw_fh s' = [])"
    using step_facts [OF wf ne, of L cfg] by metis
  from f(1,2) pc ce have eq: "s' = s" "e' = e" by simp_all
  from wf have lc: "length (closed_fhs st) = current_shard st" by (simp add: wf_state_def)
  from f(6) [unfolded eq] have sh:
    "shards_of s = closed_fhs st @ [current_raw_fh st @ ?comp] \<or>
     shards_of s = closed_fhs st @ [current_raw_fh st @ ?comp, []]"
    by (auto simp: shards_of_def)
  have nth_st: "shards_of st ! current_shard st = current_raw_fh st"
    using lc by (simp add: shards_of_def nth_append)
  have nth_s: "shards_of s ! current_shard st = current_raw_fh st @ ?comp"
    using sh lc by (auto simp: nth_append)
  show "shards_of s ! current_shard st = shards_of st ! current_shard st @ ?comp"
    using nth_st nth_s by simp
  have len: "length (shards_of st) = Suc (current_shard st)"
    using lc by (simp add: shards_of_def)
  have len': "Suc (current_shard st) \<le> length (shards_of s)"
    using sh lc by auto
  have pref: "prefix (shards_of st ! k) (shards_of s ! k)" if "k < Suc (current_shard st)" for k
  proof (cases "k = current_shard st")
    case True
    then show ?thesis using nth_st nth_s by simp
  next
    case False
    with that have "k < length (closed_fhs st)" using lc by simp
    then show ?thesis using sh by (auto simp: shards_of_def nth_append)
  qed
  show "extends (shards_of st) (shards_of s)"
    using len len' pref by (simp add: extends_def)
  have "byte_range (current_raw_fh st @ ?comp @ []) (int (length (current_raw_fh st))) (int (length ?comp)) = ?comp"
    by (rule byte_range_exact)
  then show "located (shards_of s) e ?comp"
    using f(3,4,5) [unfolded eq] nth_s len'
    by (simp add: located_def entry_range_def)
qed

lemma loop_append:
  "loop L cfg st (xs @ ys) =
     (case loop L cfg st xs of Inl err \<Rightarrow> Inl err | Inr s \<Rightarrow> loop L cfg s ys)"
  by (induction xs arbitrary: st) (auto split: sum.splits)

lemma loop_total:
  assumes "wf_state st" "\<forall>p \<in> set chunks. snd p \<noteq> []"
  shows "\<exists>s. loop L cfg st chunks = Inr s \<and> wf_state s \<and> extends (shards_of st) (shards_of s)
            \<and> current_shard st \<le> current_shard s"
  using assms
proof (induction chunks arbitrary: st)
  case Nil
  then show ?case by (simp add: extends_refl)
next
  case (Cons p rest)
  obtain i c where p: "p = (i, c)" by (cases p)
  with Cons.prems have ne: "c \<noteq> []" by simp
  obtain s1 e where s1: "process_chunk L cfg st c = Inr s1" "chunk_entry L cfg st c = Inr e" "wf_state s1"
    and cs: "current_shard st \<le> current_shard s1"
    using step_facts [OF Cons.prems(1) ne, of L cfg] by (metis le_refl le_SucI)
  from Cons.IH [OF s1(3)] Cons.prems(2) obtain s where
    s: "loop L cfg s1 rest = Inr s" "wf_state s" "extends (shards_of s1) (shards_of s)"
       "current_shard s1 \<le> current_shard s" by auto
  have "extends (shards_of st) (shards_of s1)"
    using Cons.prems(1) ne s1(1,2) by (rule step_shards)
  then have "extends (shards_of st) (shards_of s)" using s(3) by (rule extends_trans)
  with s s1 cs p show ?case by simp
qed

lemma entries_append:
  assumes "wf_state st" "\<forall>p \<in> set xs. snd p \<noteq> []" "loop L cfg st xs = Inr s"
  shows "index_entries L cfg st (xs @ ys) = index_entries L cfg st xs @ index_entries L cfg s ys"
  using assms
proof (induction xs arbitrary: st)
  case Nil
  then show ?case by simp
next
  case (Cons p rest)
  obtain i c where p: "p = (i, c)" by (cases p)
  with Cons.prems have ne: "c \<noteq> []" by simp
  obtain s1 e where s1: "process_chunk L cfg st c = Inr s1" "chunk_entry L cfg st c = Inr e" "wf_state s1"
    using step_facts [OF Cons.prems(1) ne, of L cfg] by metis
  from Cons.prems(3) s1(1) p have l: "loop L cfg s1 rest = Inr s" by simp
  from Cons.IH [OF s1(3) _ l] Cons.prems(2)
  have "index_entries L cfg s1 (rest @ ys) = index_entries L cfg s1 rest @ index_entries L cfg s ys"
    by simp
  with s1 p show ?case by simp
qed

lemma entries_props_all:
  assumes "wf_state st" "\<forall>p \<in> set chunks. snd p \<noteq> []" "loop L cfg st chunks = Inr s"
  shows "length (index_entries L cfg st chunks) = length chunks
    \<and> concat (idxf s) @ concat (idx_buffer s) =
           concat (idxf st) @ concat (idx_buffer st) @ concat (map idx_line (index_entries L cfg st chunks))
    \<and> list_all2 (\<lambda>e p. located (shards_of s) e (gzip_compress L (concat (snd p)) (compress_level cfg)))
           (index_entries L cfg st chunks) chunks
    \<and> map entry_key (index_entries L cfg st chunks) =
           map (\<lambda>p. extract_prejson (decode L) (hd (snd p))) chunks
    \<and> (\<forall>e \<in> set (index_entries L cfg st chunks).
           int (current_shard st) < entry_number e \<and> entry_number e \<le> int (current_shard s) + 1)"
  using assms
proof (induction chunks arbitrary: st)
  case Nil
  then show ?case by simp
next
  case (Cons p rest)
  obtain i c where p: "p = (i, c)" by (cases p)
  from Cons.prems(2) p have ne: "c \<noteq> []" and allr: "\<forall>p \<in> set rest. snd p \<noteq> []" by simp_all
  obtain s1 e where s1: "process_chunk L cfg st c = Inr s1" "chunk_entry L cfg st c = Inr e" "wf_state s1"
    and key: "entry_key e = extract_prejson (decode L) (hd c)"
    and num: "entry_number e = int (current_shard st) + 1"
    and cont: "concat (idxf s1) @ concat (idx_buffer s1) = concat (idxf st) @ concat (idx_buffer st) @ idx_line e"
    and cs: "current_shard st \<le> current_shard s1"
    using step_facts [OF Cons.prems(1) ne, of L cfg] by (metis le_refl le_SucI)
  from Cons.prems(3) s1(1) p have l: "loop L cfg s1 rest = Inr s" by simp
  have ents: "index_entries L cfg st (p # rest) = e # index_entries L cfg s1 rest"
    using s1 p by simp
  have ext: "extends (shards_of s1) (shards_of s)" and cs2: "current_shard s1 \<le> current_shard s"
    using loop_total [OF s1(3) allr, of L cfg] l by simp_all
  have loc: "located (shards_of s) e (gzip_compress L (concat c) (compress_level cfg))"
    using step_shards(2) [OF Cons.prems(1) ne s1(1,2)] ext by (rule located_extends)
  note ih = Cons.IH [OF s1(3) allr l]
  have a: "length (index_entries L cfg st (p # rest)) = length (p # rest)"
    using ih ents by simp
  have b: "concat (idxf s) @ concat (idx_buffer s) =
      concat (idxf st) @ concat (idx_buffer st) @ concat (map idx_line (index_entries L cfg st (p # rest)))"
    using ih cont ents by simp
  have c: "list_all2 (\<lambda>e p. located (shards_of s) e (gzip_compress L (concat (snd p)) (compress_level cfg)))
           (index_entries L cfg st (p # rest)) (p # rest)"
    using ih loc ents p by simp
  have d: "map entry_key (index_entries L cfg st (p # rest)) =
           map (\<lambda>p. extract_prejson (decode L) (hd (snd p))) (p # rest)"
    using ih key ents p by simp
  have e: "\<forall>e \<in> set (index_entries L cfg st (p # rest)).
           int (current_shard st) < entry_number e \<and> entry_number e \<le> int (current_shard s) + 1"
    using ih num ents cs cs2 by fastforce
  from a b c d e show ?case by blast
qed

section \<open>Properties of a run\<close>

lemma initial_wf: "wf_state (initial_state L cfg)"
  by (simp add: wf_state_def initial_state_def)

lemma chunks_nonempty: "\<forall>p \<in> set (stream_chunks_from_input input n). snd p \<noteq> []"
  using gen_chunks_nonempty by (auto simp: stream_chunks_from_input_def)

lemma chunks_concat:
  "concat (map (\<lambda>p. concat (snd p)) (stream_chunks_from_input input n)) = input"
  by (simp add: stream_chunks_from_input_def concat_gen_chunks concat_iter_lines)

lemma rename_single_length: "length (rename_single L cfg shards) = length shards"
  by (simp add: rename_single_def)

lemma finalize_fields:
  assumes "wf_state s"
  shows "map snd (shard_files (finalize L cfg (final_flush s))) = shards_of s"
    and "map fst (shard_files (finalize L cfg (final_flush s))) = rename_single L cfg (created_shards s)"
    and "idx_file (finalize L cfg (final_flush s)) = concat (idxf s) @ concat (idx_buffer s)"
    and "loc_file (finalize L cfg (final_flush s)) = concat (map loc_line (rename_single L cfg (created_shards s)))"
proof -
  have fl: "created_shards (final_flush s) = created_shards s" "closed_fhs (final_flush s) = closed_fhs s"
    "current_raw_fh (final_flush s) = current_raw_fh s"
    "concat (idxf (final_flush s)) = concat (idxf s) @ concat (idx_buffer s)"
    by (simp_all add: final_flush_def)
  from assms have len: "length (rename_single L cfg (created_shards s)) = length (closed_fhs s @ [current_raw_fh s])"
    by (simp add: wf_state_def rename_single_length)
  show "map snd (shard_files (finalize L cfg (final_flush s))) = shards_of s"
    using len by (simp add: finalize_def Let_def fl shards_of_def del: length_append)
  show "map fst (shard_files (finalize L cfg (final_flush s))) = rename_single L cfg (created_shards s)"
    using len by (simp add: finalize_def Let_def fl del: length_append)
  show "idx_file (finalize L cfg (final_flush s)) = concat (idxf s) @ concat (idx_buffer s)"
    by (simp add: finalize_def Let_def fl)
  show "loc_file (finalize L cfg (final_flush s)) = concat (map loc_line (rename_single L cfg (created_shards s)))"
    by (simp add: finalize_def Let_def fl)
qed

lemma run_result:
  obtains s where
    "loop L cfg (initial_state L cfg) (stream_chunks_from_input input (chunk_size cfg)) = Inr s"
    "wf_state s"
    "cdxj_to_zipnum L cfg input = Inr (finalize L cfg (final_flush s))"
proof -
  from loop_total [OF initial_wf chunks_nonempty, of L cfg L cfg input "chunk_size cfg"]
  obtain s where s: "loop L cfg (initial_state L cfg) (stream_chunks_from_input input (chunk_size cfg)) = Inr s"
    "wf_state s" by blast
  then have "cdxj_to_zipnum L cfg input = Inr (finalize L cfg (final_flush s))"
    by (simp add: cdxj_to_zipnum_def)
  with s show ?thesis by (rule that)
qed

lemma run_idx_file:
  assumes "loop L cfg (initial_state L cfg) (stream_chunks_from_input input (chunk_size cfg)) = Inr s"
  shows "idx_file (finalize L cfg (final_flush s)) = concat (map idx_line (run_entries L cfg input))"
proof -
  have wf: "wf_state s"
    using loop_total [OF initial_wf chunks_nonempty, of L cfg L cfg input "chunk_size cfg"] assms by simp
  from entries_props_all [OF initial_wf chunks_nonempty assms]
  have "concat (idxf s) @ concat (idx_buffer s) = concat (map idx_line (run_entries L cfg input))"
    by (simp add: run_entries_def initial_state_def)
  with finalize_fields(3) [OF wf] show ?thesis by simp
qed

lemma idx_line_nonempty: "idx_line e \<noteq> [] \<and> last (idx_line e) = NL"
  by (simp add: idx_line_def)

text \<open>
  Claim C1. For every input byte stream, every chunk size and every compression level
  whose compressed chunks decompress to their data: the run succeeds, the index file is the
  concatenation of the index lines of \<open>run_entries\<close>, the byte range that each entry names
  in its shard file is the compressed chunk of the same position, and decompressing these
  ranges in chunk order and concatenating the results gives back the input byte for byte.
  The chunk size need not be positive for this.
\<close>

theorem chunks_roundtrip:
  assumes codec: "\<forall>d. gunzip (gzip_compress L d (compress_level cfg)) = d"
  shows "\<exists>out. cdxj_to_zipnum L cfg input = Inr out
     \<and> idx_file out = concat (map idx_line (run_entries L cfg input))
     \<and> map (entry_range (map snd (shard_files out))) (run_entries L cfg input) =
         map (\<lambda>p. gzip_compress L (concat (snd p)) (compress_level cfg))
           (stream_chunks_from_input input (chunk_size cfg))
     \<and> concat (map (\<lambda>e. gunzip (entry_range (map snd (shard_files out)) e))
         (run_entries L cfg input)) = input"
proof -
  let ?chunks = "stream_chunks_from_input input (chunk_size cfg)"
  let ?es = "run_entries L cfg input"
  obtain s where s: "loop L cfg (initial_state L cfg) ?chunks = Inr s" "wf_state s"
    "cdxj_to_zipnum L cfg input = Inr (finalize L cfg (final_flush s))"
    by (rule run_result)
  let ?out = "finalize L cfg (final_flush s)"
  have sh: "map snd (shard_files ?out) = shards_of s" using s(2) by (rule finalize_fields)
  have idx: "idx_file ?out = concat (map idx_line ?es)" using s(1) by (rule run_idx_file)
  from entries_props_all [OF initial_wf chunks_nonempty s(1)]
  have la: "list_all2 (\<lambda>e p. located (shards_of s) e (gzip_compress L (concat (snd p)) (compress_level cfg)))
              ?es ?chunks"
    by (simp add: run_entries_def)
  then have "list_all2 (\<lambda>e p. entry_range (shards_of s) e = gzip_compress L (concat (snd p)) (compress_level cfg))
              ?es ?chunks"
    by (rule list_all2_mono) (simp add: located_def)
  then have rng: "map (entry_range (shards_of s)) ?es =
      map (\<lambda>p. gzip_compress L (concat (snd p)) (compress_level cfg)) ?chunks"
    by (induction rule: list_all2_induct) simp_all
  have "map (\<lambda>e. gunzip (entry_range (shards_of s) e)) ?es = map gunzip (map (entry_range (shards_of s)) ?es)"
    by simp
  also have "\<dots> = map (\<lambda>p. concat (snd p)) ?chunks"
    unfolding rng using codec by simp
  finally have "concat (map (\<lambda>e. gunzip (entry_range (shards_of s) e)) ?es) = input"
    by (simp add: chunks_concat)
  with s(3) idx rng sh show ?thesis by simp
qed

text \<open>
  Claim C3. With a positive chunk size the run succeeds and the index file it writes is the
  concatenation of as many records as there are chunks, every record non-empty and ending
  with its newline (the records are the index lines of \<open>run_entries\<close>, one per chunk).
  The number of chunks is the number of lines divided by the chunk size, rounded up. With
  no line at all there is no index entry, the index file is empty, and there is still one
  shard file, which is empty.
\<close>

theorem index_record_count:
  assumes pos: "0 < chunk_size cfg"
  shows "\<exists>out. cdxj_to_zipnum L cfg input = Inr out
     \<and> idx_file out = concat (map idx_line (run_entries L cfg input))
     \<and> list_all (\<lambda>r. r \<noteq> [] \<and> last r = NL) (map idx_line (run_entries L cfg input))
     \<and> length (map idx_line (run_entries L cfg input)) =
         length (stream_chunks_from_input input (chunk_size cfg))
     \<and> length (run_entries L cfg input) = length (stream_chunks_from_input input (chunk_size cfg))
     \<and> length (stream_chunks_from_input input (chunk_size cfg)) =
         (length (iter_lines [] input) + nat (chunk_size cfg) - 1) div nat (chunk_size cfg)
     \<and> (length (iter_lines [] input) = 0 \<longrightarrow>
          run_entries L cfg input = [] \<and> idx_file out = [] \<and> map snd (shard_files out) = [[]])"
proof -
  let ?chunks = "stream_chunks_from_input input (chunk_size cfg)"
  let ?es = "run_entries L cfg input"
  obtain s where s: "loop L cfg (initial_state L cfg) ?chunks = Inr s" "wf_state s"
    "cdxj_to_zipnum L cfg input = Inr (finalize L cfg (final_flush s))"
    by (rule run_result)
  let ?out = "finalize L cfg (final_flush s)"
  have sh: "map snd (shard_files ?out) = shards_of s" using s(2) by (rule finalize_fields)
  have idx: "idx_file ?out = concat (map idx_line ?es)" using s(1) by (rule run_idx_file)
  from entries_props_all [OF initial_wf chunks_nonempty s(1)]
  have len: "length ?es = length ?chunks" by (simp add: run_entries_def)
  from pos have n: "0 < nat (chunk_size cfg)" "int (nat (chunk_size cfg)) = chunk_size cfg" by simp_all
  have ceil: "length ?chunks = (length (iter_lines [] input) + nat (chunk_size cfg) - 1) div nat (chunk_size cfg)"
    using gen_chunks_length [OF n(1), of "[]" 0 "iter_lines [] input"] n
    by (simp add: stream_chunks_from_input_def)
  have zero: "run_entries L cfg input = [] \<and> idx_file ?out = [] \<and> map snd (shard_files ?out) = [[]]"
    if z: "length (iter_lines [] input) = 0"
  proof -
    from z have c0: "?chunks = []" by (simp add: stream_chunks_from_input_def)
    with s(1) have "s = initial_state L cfg" by simp
    then have "shards_of s = [[]]" by (simp add: shards_of_def initial_state_def)
    moreover from c0 have e0: "?es = []" by (simp add: run_entries_def)
    ultimately show ?thesis using idx sh by simp
  qed
  have recs: "list_all (\<lambda>r. r \<noteq> [] \<and> last r = NL) (map idx_line ?es)"
    by (simp add: list_all_iff idx_line_nonempty)
  have len': "length (map idx_line ?es) = length ?chunks" using len by simp
  from s(3) idx recs len' len ceil zero show ?thesis by simp
qed

text \<open>
  Claim C10. Every chunk has a first line, and the key of its index entry is
  \<open>extract_prejson\<close> of that first line: a function of the first line alone.
\<close>

theorem index_key_first_line:
  "\<exists>out. cdxj_to_zipnum L cfg input = Inr out
     \<and> idx_file out = concat (map idx_line (run_entries L cfg input))
     \<and> list_all (\<lambda>p. snd p \<noteq> []) (stream_chunks_from_input input (chunk_size cfg))
     \<and> map entry_key (run_entries L cfg input) =
         map (\<lambda>p. extract_prejson (decode L) (hd (snd p)))
           (stream_chunks_from_input input (chunk_size cfg))"
proof -
  let ?chunks = "stream_chunks_from_input input (chunk_size cfg)"
  obtain s where s: "loop L cfg (initial_state L cfg) ?chunks = Inr s" "wf_state s"
    "cdxj_to_zipnum L cfg input = Inr (finalize L cfg (final_flush s))"
    by (rule run_result)
  have idx: "idx_file (finalize L cfg (final_flush s)) = concat (map idx_line (run_entries L cfg input))"
    using s(1) by (rule run_idx_file)
  from entries_props_all [OF initial_wf chunks_nonempty s(1)]
  have keys: "map entry_key (run_entries L cfg input) =
         map (\<lambda>p. extract_prejson (decode L) (hd (snd p))) ?chunks"
    by (simp add: run_entries_def)
  have ne: "list_all (\<lambda>p. snd p \<noteq> []) ?chunks"
    using chunks_nonempty by (simp add: list_all_iff)
  from s(3) idx keys ne show ?thesis by simp
qed

text \<open>
  Claim C2. Take any chunk of a run, \<open>before\<close> the chunks ahead of it. The loop reaches a
  state \<open>st\<close> before this chunk and a state \<open>s\<close> after it, and the index entry of the chunk
  (the entry of the same position in \<open>run_entries\<close>) has as start offset the size of the
  current shard file in \<open>st\<close>, as length the exact length of the compressed chunk, and the
  shard file in \<open>s\<close> is the file in \<open>st\<close> followed by the compressed chunk, so that offset
  plus length is its size right after the append.
\<close>

theorem offset_length_accounting:
  assumes split: "stream_chunks_from_input input (chunk_size cfg) = before @ (i, chunk_lines) # after"
  shows "\<exists>st e s. loop L cfg (initial_state L cfg) before = Inr st
     \<and> chunk_entry L cfg st chunk_lines = Inr e
     \<and> process_chunk L cfg st chunk_lines = Inr s
     \<and> run_entries L cfg input ! length before = e
     \<and> entry_number e = int (current_shard st) + 1
     \<and> entry_offset e = int (length (shards_of st ! current_shard st))
     \<and> entry_length e = int (length (gzip_compress L (concat chunk_lines) (compress_level cfg)))
     \<and> shards_of s ! current_shard st =
         shards_of st ! current_shard st @ gzip_compress L (concat chunk_lines) (compress_level cfg)
     \<and> entry_offset e + entry_length e = int (length (shards_of s ! current_shard st))"
proof -
  let ?comp = "gzip_compress L (concat chunk_lines) (compress_level cfg)"
  have all: "\<forall>p \<in> set (before @ (i, chunk_lines) # after). snd p \<noteq> []"
    using chunks_nonempty [of input "chunk_size cfg"] split by simp
  then have nb: "\<forall>p \<in> set before. snd p \<noteq> []" and ne: "chunk_lines \<noteq> []" by simp_all
  obtain st where st: "loop L cfg (initial_state L cfg) before = Inr st" "wf_state st"
    using loop_total [OF initial_wf nb, of L cfg L cfg] by blast
  obtain s e where se: "process_chunk L cfg st chunk_lines = Inr s" "chunk_entry L cfg st chunk_lines = Inr e"
    and off: "entry_offset e = int (length (current_raw_fh st))"
    and len: "entry_length e = int (length ?comp)"
    and num: "entry_number e = int (current_shard st) + 1"
    using step_facts [OF st(2) ne, of L cfg] by metis
  have app: "shards_of s ! current_shard st = shards_of st ! current_shard st @ ?comp"
    using st(2) ne se by (rule step_shards)
  have cur: "shards_of st ! current_shard st = current_raw_fh st"
    using st(2) by (simp add: shards_of_def wf_state_def nth_append)
  have "index_entries L cfg (initial_state L cfg) (before @ (i, chunk_lines) # after) =
      index_entries L cfg (initial_state L cfg) before @ index_entries L cfg st ((i, chunk_lines) # after)"
    using initial_wf nb st(1) by (rule entries_append)
  moreover have "length (index_entries L cfg (initial_state L cfg) before) = length before"
    using entries_props_all [OF initial_wf nb st(1)] by simp
  moreover have "index_entries L cfg st ((i, chunk_lines) # after) = e # index_entries L cfg s after"
    using se by simp
  ultimately have nth: "run_entries L cfg input ! length before = e"
    by (simp add: run_entries_def split nth_append)
  from st(1) se nth num off len app cur show ?thesis by simp
qed

section \<open>The batch buffer and the chunk size\<close>

lemma chunk_entry_same:
  "same_files s t \<Longrightarrow> chunk_entry L cfg s c = chunk_entry L cfg t c"
  by (cases c) (simp_all add: same_files_def chunk_entry_def write_chunk_def Let_def)

lemma step_same:
  assumes "same_files s t"
  shows "(\<exists>err. process_chunk L cfg s c = Inl err \<and> process_chunk_immediate L cfg t c = Inl err)
       \<or> (\<exists>s' t'. process_chunk L cfg s c = Inr s' \<and> process_chunk_immediate L cfg t c = Inr t'
             \<and> same_files s' t')"
proof (cases "chunk_entry L cfg t c")
  case (Inl err)
  with chunk_entry_same [OF assms, of L cfg c] show ?thesis
    by (simp add: process_chunk_def process_chunk_immediate_def)
next
  case (Inr e)
  with chunk_entry_same [OF assms, of L cfg c] have ce: "chunk_entry L cfg s c = Inr e" by simp
  have wc: "write_chunk L cfg s c = write_chunk L cfg t c"
    using assms by (simp add: write_chunk_def same_files_def)
  let ?s1 = "s\<lparr>current_raw_fh := write_chunk L cfg s c, idx_buffer := idx_buffer s @ [idx_line e]\<rparr>"
  let ?s2 = "flush_full ?s1"
  let ?t1 = "t\<lparr>current_raw_fh := write_chunk L cfg t c, idxf := idxf t @ [idx_line e]\<rparr>"
  have c2: "concat (idxf ?s2) @ concat (idx_buffer ?s2) = concat (idxf ?t1)"
    using assms by (simp add: flush_full_content same_files_def)
  have same2: "same_files ?s2 ?t1"
    using assms c2 wc by (simp add: same_files_def)
  show ?thesis
  proof (cases "reached (tell (write_chunk L cfg t c)) (target_shard_size (shard_size_mb cfg))")
    case True
    have "same_files (rollover L cfg ?s2)
       (?t1\<lparr>closed_fhs := closed_fhs ?t1 @ [current_raw_fh ?t1],
              current_shard := current_shard ?t1 + 1,
              created_shards := created_shards ?t1 @ [get_shard_path L cfg (current_shard ?t1 + 1) False],
              current_raw_fh := []\<rparr>)"
      using same2 c2 by (simp add: same_files_def)
    with True wc show ?thesis
      by (simp add: process_chunk_def process_chunk_immediate_def ce Inr Let_def)
  next
    case False
    with same2 wc show ?thesis
      by (simp add: process_chunk_def process_chunk_immediate_def ce Inr Let_def)
  qed
qed

lemma loop_same:
  "same_files s t \<Longrightarrow>
   (\<exists>err. loop L cfg s chunks = Inl err \<and> loop_immediate L cfg t chunks = Inl err)
   \<or> (\<exists>s' t'. loop L cfg s chunks = Inr s' \<and> loop_immediate L cfg t chunks = Inr t' \<and> same_files s' t')"
proof (induction chunks arbitrary: s t)
  case Nil
  then show ?case by simp
next
  case (Cons p rest)
  obtain i c where p: "p = (i, c)" by (cases p)
  from step_same [OF Cons.prems, of L cfg c] show ?case
  proof (elim disjE exE conjE)
    fix err assume "process_chunk L cfg s c = Inl err" "process_chunk_immediate L cfg t c = Inl err"
    with p show ?thesis by simp
  next
    fix s' t' assume st: "process_chunk L cfg s c = Inr s'" "process_chunk_immediate L cfg t c = Inr t'"
      "same_files s' t'"
    from Cons.IH [OF st(3)] st(1,2) p show ?thesis by simp
  qed
qed

lemma finalize_same:
  assumes "same_files s t"
  shows "finalize L cfg (final_flush s) = finalize L cfg t"
proof -
  have "concat (idxf (final_flush s)) = concat (idxf s) @ concat (idx_buffer s)"
    by (simp add: final_flush_def)
  moreover have "created_shards (final_flush s) = created_shards s" "closed_fhs (final_flush s) = closed_fhs s"
    "current_raw_fh (final_flush s) = current_raw_fh s"
    by (simp_all add: final_flush_def)
  ultimately show ?thesis using assms by (simp add: finalize_def same_files_def)
qed

text \<open>
  Claim C7. The run with the batch buffer of 100 index lines and the run that writes every
  index line at once give the same result: the same shard files, the same location file, and
  the same index file byte for byte (and the same error, if any).
\<close>

theorem batched_index_equals_immediate:
  "cdxj_to_zipnum L cfg input = cdxj_to_zipnum_immediate L cfg input"
proof -
  have init: "same_files (initial_state L cfg) (initial_state L cfg)"
    by (simp add: same_files_def initial_state_def)
  from loop_same [OF init, of L cfg "stream_chunks_from_input input (chunk_size cfg)"]
  show ?thesis
    by (auto simp: cdxj_to_zipnum_def cdxj_to_zipnum_immediate_def finalize_same)
qed

lemma resolve_base_chunk_size:
  "resolve_base L (cfg\<lparr>chunk_size := n\<rparr>) = resolve_base L cfg"
  by (cases "base cfg") (simp_all add: resolve_base_def)

lemma cfg_chunk_size_irrelevant:
  "get_shard_path L (cfg\<lparr>chunk_size := n\<rparr>) k b = get_shard_path L cfg k b"
  "chunk_entry L (cfg\<lparr>chunk_size := n\<rparr>) st c = chunk_entry L cfg st c"
  "write_chunk L (cfg\<lparr>chunk_size := n\<rparr>) st c = write_chunk L cfg st c"
  "rollover L (cfg\<lparr>chunk_size := n\<rparr>) st = rollover L cfg st"
  "initial_state L (cfg\<lparr>chunk_size := n\<rparr>) = initial_state L cfg"
  by (simp_all add: get_shard_path_def resolve_base_chunk_size chunk_entry_def write_chunk_def
      rollover_def initial_state_def)

lemma process_chunk_chunk_size:
  "process_chunk L (cfg\<lparr>chunk_size := n\<rparr>) st c = process_chunk L cfg st c"
  by (cases "chunk_entry L cfg st c") (simp_all add: process_chunk_def cfg_chunk_size_irrelevant Let_def)

lemma loop_chunk_size:
  "loop L (cfg\<lparr>chunk_size := n\<rparr>) st chunks = loop L cfg st chunks"
  by (induction chunks arbitrary: st) (auto simp: process_chunk_chunk_size split: sum.splits)

lemma finalize_chunk_size:
  "finalize L (cfg\<lparr>chunk_size := n\<rparr>) st = finalize L cfg st"
  by (simp add: finalize_def rename_single_def cfg_chunk_size_irrelevant resolve_base_chunk_size)

text \<open>
  Claim C6, amended. The program does not check the chunk size. With a chunk size of zero
  or less the run succeeds, every line is a chunk of its own, and the run gives what the
  run with chunk size 1 gives.
\<close>

theorem nonpositive_chunk_size_runs:
  assumes "chunk_size cfg \<le> 0"
  shows "(\<exists>out. cdxj_to_zipnum L cfg input = Inr out)
     \<and> map snd (stream_chunks_from_input input (chunk_size cfg)) = map (\<lambda>l. [l]) (iter_lines [] input)
     \<and> cdxj_to_zipnum L cfg input = cdxj_to_zipnum L (cfg\<lparr>chunk_size := 1\<rparr>) input"
proof -
  from assms have le: "chunk_size cfg \<le> 1" by simp
  have eq: "stream_chunks_from_input input (chunk_size cfg) = stream_chunks_from_input input 1"
    using gen_chunks_nonpos [OF le] by (simp add: stream_chunks_from_input_def)
  have ex: "\<exists>out. cdxj_to_zipnum L cfg input = Inr out"
    using run_result [of L cfg input] by metis
  have one: "map snd (stream_chunks_from_input input (chunk_size cfg)) = map (\<lambda>l. [l]) (iter_lines [] input)"
    unfolding eq by (simp add: stream_chunks_from_input_def gen_chunks_one)
  have run: "cdxj_to_zipnum L cfg input = cdxj_to_zipnum L (cfg\<lparr>chunk_size := 1\<rparr>) input"
    by (cases "loop L cfg (initial_state L cfg) (stream_chunks_from_input input 1)")
      (simp_all add: cdxj_to_zipnum_def eq loop_chunk_size finalize_chunk_size
        cfg_chunk_size_irrelevant)
  from ex one run show ?thesis by simp
qed

section \<open>Keys and the rollover after the last chunk\<close>

lemma lstrip_decomp: "\<exists>a. s = a @ lstrip s \<and> list_all isspace a \<and> (lstrip s = [] \<or> \<not> isspace (hd (lstrip s)))"
proof -
  have "s = takeWhile isspace s @ lstrip s" by (simp add: lstrip_def)
  moreover have "list_all isspace (takeWhile isspace s)"
    by (auto simp: list_all_iff dest: set_takeWhileD)
  moreover have "lstrip s = [] \<or> \<not> isspace (hd (lstrip s))"
    unfolding lstrip_def using hd_dropWhile [of isspace s] by blast
  ultimately show ?thesis by blast
qed

lemma rstrip_decomp: "\<exists>b. s = rstrip s @ b \<and> list_all isspace b \<and> (rstrip s = [] \<or> \<not> isspace (last (rstrip s)))"
proof -
  have "rev s = takeWhile isspace (rev s) @ dropWhile isspace (rev s)" by simp
  then have "s = rstrip s @ rev (takeWhile isspace (rev s))"
    unfolding rstrip_def by (metis rev_append rev_rev_ident)
  moreover have "list_all isspace (rev (takeWhile isspace (rev s)))"
    by (auto simp: list_all_iff dest: set_takeWhileD)
  moreover have "rstrip s = [] \<or> \<not> isspace (last (rstrip s))"
  proof (cases "dropWhile isspace (rev s) = []")
    case True
    then show ?thesis by (simp add: rstrip_def)
  next
    case False
    then have "\<not> isspace (hd (dropWhile isspace (rev s)))" by (rule hd_dropWhile)
    with False show ?thesis by (simp add: rstrip_def last_rev)
  qed
  ultimately show ?thesis by blast
qed

lemma rstrip_hd: "rstrip s \<noteq> [] \<Longrightarrow> hd (rstrip s) = hd s"
proof -
  assume ne: "rstrip s \<noteq> []"
  obtain b where "s = rstrip s @ b" using rstrip_decomp by blast
  then have "hd s = hd (rstrip s @ b)" by simp
  with ne show ?thesis by simp
qed

lemma strip_trimmed: "trimmed_of s (strip s)"
proof -
  obtain a where a: "s = a @ lstrip s" "list_all isspace a" "lstrip s = [] \<or> \<not> isspace (hd (lstrip s))"
    using lstrip_decomp by blast
  obtain b where b: "lstrip s = strip s @ b" "list_all isspace b"
    "strip s = [] \<or> \<not> isspace (last (strip s))"
    using rstrip_decomp [of "lstrip s"] by (auto simp: strip_def)
  have dec: "s = a @ strip s @ b" using a(1) b(1) by simp
  have ends: "strip s = [] \<or> (\<not> isspace (hd (strip s)) \<and> \<not> isspace (last (strip s)))"
  proof (cases "strip s = []")
    case True
    then show ?thesis by simp
  next
    case False
    then have "hd (strip s) = hd (lstrip s)" unfolding strip_def by (rule rstrip_hd)
    moreover from False have "lstrip s \<noteq> []" using b(1) by auto
    ultimately show ?thesis using a(3) b(3) False by simp
  qed
  from dec a(2) b(2) ends show ?thesis unfolding trimmed_of_def by blast
qed

text \<open>
  Claim C8. \<open>extract_prejson\<close> is a function from lines to keys (it has no error result,
  and as a function it gives the same key for the same line). When the decoded line has a
  \<open>{\<close>, the key is the text before the first \<open>{\<close>, stripped; otherwise it is the whole
  decoded line, stripped; stripping the line terminator first changes neither. In both
  cases the key is that text trimmed of the whitespace around it, possibly empty.
\<close>

theorem extract_prejson_key:
  "extract_prejson dec l =
     (if LBRACE \<in> set (dec l) then strip (takeWhile (\<lambda>c. c \<noteq> LBRACE) (dec l)) else strip (dec l))
   \<and> (if LBRACE \<in> set (dec l)
       then trimmed_of (takeWhile (\<lambda>c. c \<noteq> LBRACE) (dec l)) (extract_prejson dec l)
       else trimmed_of (dec l) (extract_prejson dec l))"
  using extract_prejson_takeWhile [of dec l] strip_trimmed by simp

lemma step_numbered:
  assumes "wf_state st" "chunk_lines \<noteq> []" "numbered_paths L cfg st"
    "process_chunk L cfg st chunk_lines = Inr s"
  shows "numbered_paths L cfg s"
proof -
  obtain s' where f: "process_chunk L cfg st chunk_lines = Inr s'"
    "(current_shard s' = current_shard st \<and> created_shards s' = created_shards st)
     \<or> (current_shard s' = Suc (current_shard st) \<and>
        created_shards s' = created_shards st @ [get_shard_path L cfg (Suc (current_shard st)) False])"
    using step_facts [OF assms(1,2), of L cfg] by metis
  with assms(4) have eq: "s' = s" by simp
  from f(2) [unfolded eq] assms(3) show ?thesis
    by (auto simp: numbered_paths_def)
qed

lemma loop_numbered:
  assumes "wf_state st" "\<forall>p \<in> set chunks. snd p \<noteq> []" "numbered_paths L cfg st"
    "loop L cfg st chunks = Inr s"
  shows "numbered_paths L cfg s"
  using assms
proof (induction chunks arbitrary: st)
  case Nil
  then show ?case by simp
next
  case (Cons p rest)
  obtain i c where p: "p = (i, c)" by (cases p)
  with Cons.prems have ne: "c \<noteq> []" and allr: "\<forall>p \<in> set rest. snd p \<noteq> []" by simp_all
  obtain s1 where s1: "process_chunk L cfg st c = Inr s1" "wf_state s1"
    using step_facts [OF Cons.prems(1) ne, of L cfg] by metis
  have n1: "numbered_paths L cfg s1"
    using Cons.prems(1) ne Cons.prems(3) s1(1) by (rule step_numbered)
  from Cons.prems(4) s1(1) p have "loop L cfg s1 rest = Inr s" by simp
  with Cons.IH [OF s1(2) allr n1] show ?case by simp
qed

lemma initial_numbered: "numbered_paths L cfg (initial_state L cfg)"
  by (simp add: numbered_paths_def initial_state_def)

text \<open>
  Claim C9. When the write of the last chunk of the input makes the current shard reach the
  threshold, the run ends with one more shard than the one that received this chunk: the
  new shard is the last of the list, it is empty, all shards keep their numbered names (no
  rename), the location file has one line for each of them, and no index entry carries the
  number of the last shard.
\<close>

theorem rollover_after_last_chunk:
  assumes split: "stream_chunks_from_input input (chunk_size cfg) = before @ [(i, chunk_lines)]"
    and lp: "loop L cfg (initial_state L cfg) before = Inr st"
    and hit: "reached (tell (write_chunk L cfg st chunk_lines)) (target_shard_size (shard_size_mb cfg))"
  shows "\<exists>out. cdxj_to_zipnum L cfg input = Inr out
     \<and> length (shard_files out) = current_shard st + 2
     \<and> map fst (shard_files out) =
         map (\<lambda>n. get_shard_path L cfg n False) [0 ..< current_shard st + 2]
     \<and> snd (last (shard_files out)) = []
     \<and> loc_file out =
         concat (map (\<lambda>n. loc_line (get_shard_path L cfg n False)) [0 ..< current_shard st + 2])
     \<and> list_all (\<lambda>e. entry_number e < int (length (shard_files out))) (run_entries L cfg input)"
proof -
  let ?chunks = "stream_chunks_from_input input (chunk_size cfg)"
  let ?comp = "gzip_compress L (concat chunk_lines) (compress_level cfg)"
  have all: "\<forall>p \<in> set (before @ [(i, chunk_lines)]). snd p \<noteq> []"
    using chunks_nonempty [of input "chunk_size cfg"] split by simp
  then have nb: "\<forall>p \<in> set before. snd p \<noteq> []" and ne: "chunk_lines \<noteq> []" by simp_all
  have wf: "wf_state st"
    using loop_total [OF initial_wf nb, of L cfg L cfg] lp by simp
  have np: "numbered_paths L cfg st"
    using initial_wf nb initial_numbered lp by (rule loop_numbered)
  have wc: "tell (write_chunk L cfg st chunk_lines) = int (length (current_raw_fh st @ ?comp))"
    by (simp add: tell_def write_chunk_def fwrite_def Let_def)
  obtain s e where se: "process_chunk L cfg st chunk_lines = Inr s"
    "chunk_entry L cfg st chunk_lines = Inr e" "wf_state s"
    and num: "entry_number e = int (current_shard st) + 1"
    and roll: "current_shard s = Suc (current_shard st)" "current_raw_fh s = []"
    using step_facts [OF wf ne, of L cfg] hit [unfolded wc] by metis
  have nps: "numbered_paths L cfg s"
    using wf ne np se(1) by (rule step_numbered)
  have lps: "loop L cfg (initial_state L cfg) ?chunks = Inr s"
    by (simp add: split loop_append lp se(1))
  have run: "cdxj_to_zipnum L cfg input = Inr (finalize L cfg (final_flush s))"
    using lps by (simp add: cdxj_to_zipnum_def)
  let ?out = "finalize L cfg (final_flush s)"
  have cs: "created_shards s = map (\<lambda>n. get_shard_path L cfg n False) [0 ..< current_shard st + 2]"
    using nps roll(1) by (simp add: numbered_paths_def)
  have two: "length (created_shards s) = current_shard st + 2" unfolding cs by simp
  then have norename: "rename_single L cfg (created_shards s) = created_shards s"
    by (simp add: rename_single_def)
  have fsts: "map fst (shard_files ?out) = map (\<lambda>n. get_shard_path L cfg n False) [0 ..< current_shard st + 2]"
    using finalize_fields(2) [OF se(3), of L cfg] norename cs by simp
  have snds: "map snd (shard_files ?out) = shards_of s"
    using se(3) by (rule finalize_fields)
  have len: "length (shard_files ?out) = current_shard st + 2"
    using fsts by (metis length_map two cs)
  have "last (map snd (shard_files ?out)) = []"
    unfolding snds by (simp add: shards_of_def roll(2))
  moreover have "shard_files ?out \<noteq> []" using len by auto
  ultimately have lst: "snd (last (shard_files ?out)) = []" by (simp add: last_map)
  have loc: "loc_file ?out =
      concat (map (\<lambda>n. loc_line (get_shard_path L cfg n False)) [0 ..< current_shard st + 2])"
    using finalize_fields(4) [OF se(3), of L cfg] norename cs by (simp add: comp_def)
  have "\<forall>e \<in> set (index_entries L cfg (initial_state L cfg) before). entry_number e \<le> int (current_shard st) + 1"
    using entries_props_all [OF initial_wf nb lp] by simp
  moreover have "index_entries L cfg (initial_state L cfg) (before @ [(i, chunk_lines)]) =
      index_entries L cfg (initial_state L cfg) before @ index_entries L cfg st [(i, chunk_lines)]"
    using initial_wf nb lp by (rule entries_append)
  moreover have "index_entries L cfg st [(i, chunk_lines)] = [e]" using se by simp
  ultimately have "\<forall>e \<in> set (run_entries L cfg input). entry_number e \<le> int (current_shard st) + 1"
    using num by (auto simp: run_entries_def split)
  then have ents: "list_all (\<lambda>e. entry_number e < int (length (shard_files ?out))) (run_entries L cfg input)"
    unfolding len by (auto simp: list_all_iff)
  from run len fsts lst loc ents show ?thesis by simp
qed

section \<open>The program on concrete inputs\<close>

lemmas str_defs = lit_def LF_def TAB_def NL_def CR_def SLASH_def LBRACE_def
  rstrip_chars_def strip_def lstrip_def rstrip_def isspace_def slice_to_def
  endswith_def startswith_def suffix_to_prefix path_join_def basename_def
  str_nat.simps str_int_def fmt_02d_def str_replace.simps extract_prejson_def

lemmas run_defs = cdxj_to_zipnum_def stream_chunks_from_input_def process_chunk_def
  chunk_entry_def write_chunk_def tell_def fwrite_def flush_full_def flush_pending_def rollover_def
  idx_buffer_size_def reached_def target_shard_size_def final_flush_def finalize_def
  rename_single_def get_shard_path_def resolve_base_def loc_line_def idx_line_def
  initial_state_def run_entries_def Let_def

lemmas demo_defs = demo_lib_def demo_cfg_def demo_input_def gunzip_demo_def

text \<open>
  Claim C1, on the example input of three lines with the example library.
\<close>

theorem chunks_roundtrip_witness:
  "(\<forall>d. gunzip_demo (gzip_compress demo_lib d (compress_level demo_cfg)) = d)
   \<and> (\<exists>out. cdxj_to_zipnum demo_lib demo_cfg demo_input = Inr out
        \<and> concat (map (\<lambda>e. gunzip_demo (entry_range (map snd (shard_files out)) e))
             (run_entries demo_lib demo_cfg demo_input)) = demo_input)"
proof -
  have h: "\<forall>d. gunzip_demo (gzip_compress demo_lib d (compress_level demo_cfg)) = d"
    by (simp add: demo_defs)
  from chunks_roundtrip [OF h, of demo_input]
  obtain out where "cdxj_to_zipnum demo_lib demo_cfg demo_input = Inr out"
    "concat (map (\<lambda>e. gunzip_demo (entry_range (map snd (shard_files out)) e))
             (run_entries demo_lib demo_cfg demo_input)) = demo_input"
    by (elim exE conjE)
  then have c: "\<exists>out. cdxj_to_zipnum demo_lib demo_cfg demo_input = Inr out
        \<and> concat (map (\<lambda>e. gunzip_demo (entry_range (map snd (shard_files out)) e))
             (run_entries demo_lib demo_cfg demo_input)) = demo_input"
    by (intro exI conjI)
  show ?thesis by (intro conjI h c)
qed

text \<open>
  Claim C2, for the second chunk of the example input.
\<close>

theorem offset_length_accounting_witness:
  "stream_chunks_from_input demo_input (chunk_size demo_cfg) =
     [(0, [''a {1}'' @ [LF], ''b {2}'' @ [LF]])] @ (1, [''c'']) # []
   \<and> (\<exists>st e s. loop demo_lib demo_cfg (initial_state demo_lib demo_cfg)
                   [(0, [''a {1}'' @ [LF], ''b {2}'' @ [LF]])] = Inr st
        \<and> process_chunk demo_lib demo_cfg st [''c''] = Inr s
        \<and> run_entries demo_lib demo_cfg demo_input ! 1 = e
        \<and> entry_offset e = int (length (shards_of st ! current_shard st))
        \<and> entry_offset e + entry_length e = int (length (shards_of s ! current_shard st)))"
proof -
  have h: "stream_chunks_from_input demo_input (chunk_size demo_cfg) =
     [(0, [''a {1}'' @ [LF], ''b {2}'' @ [LF]])] @ (1, [''c'']) # []"
    by (simp add: run_defs str_defs demo_defs)
  from offset_length_accounting [OF h, of demo_lib]
  obtain st e s where
    "loop demo_lib demo_cfg (initial_state demo_lib demo_cfg)
       [(0, [''a {1}'' @ [LF], ''b {2}'' @ [LF]])] = Inr st"
    "process_chunk demo_lib demo_cfg st [''c''] = Inr s"
    "run_entries demo_lib demo_cfg demo_input ! length [(0::nat, [''a {1}'' @ [LF], ''b {2}'' @ [LF]])] = e"
    "entry_offset e = int (length (shards_of st ! current_shard st))"
    "entry_offset e + entry_length e = int (length (shards_of s ! current_shard st))"
    by (elim exE conjE)
  then have c: "\<exists>st e s. loop demo_lib demo_cfg (initial_state demo_lib demo_cfg)
                   [(0, [''a {1}'' @ [LF], ''b {2}'' @ [LF]])] = Inr st
        \<and> process_chunk demo_lib demo_cfg st [''c''] = Inr s
        \<and> run_entries demo_lib demo_cfg demo_input ! 1 = e
        \<and> entry_offset e = int (length (shards_of st ! current_shard st))
        \<and> entry_offset e + entry_length e = int (length (shards_of s ! current_shard st))"
    by (intro exI [of _ st] exI [of _ e] exI [of _ s]) simp
  show ?thesis by (intro conjI h c)
qed

text \<open>
  Claim C3, on the example input (three lines, chunk size 2: the index file written is two
  records, shown in full) and on the empty input.
\<close>

theorem index_record_count_witness:
  "0 < chunk_size demo_cfg
   \<and> (\<exists>out. cdxj_to_zipnum demo_lib demo_cfg demo_input = Inr out
        \<and> idx_file out = concat (map idx_line (run_entries demo_lib demo_cfg demo_input))
        \<and> list_all (\<lambda>r. r \<noteq> [] \<and> last r = NL)
             (map idx_line (run_entries demo_lib demo_cfg demo_input))
        \<and> length (map idx_line (run_entries demo_lib demo_cfg demo_input)) = 2
        \<and> idx_file out =
             lit ''a'' @ [TAB] @ lit ''x-01'' @ [TAB] @ lit ''0'' @ [TAB] @ lit ''13'' @ [TAB] @ lit ''1'' @ [NL]
             @ lit ''c'' @ [TAB] @ lit ''x-01'' @ [TAB] @ lit ''13'' @ [TAB] @ lit ''2'' @ [TAB] @ lit ''1'' @ [NL])
   \<and> length (run_entries demo_lib demo_cfg demo_input) = 2
   \<and> length (iter_lines [] []) = 0
   \<and> (\<exists>out. cdxj_to_zipnum demo_lib demo_cfg [] = Inr out
        \<and> run_entries demo_lib demo_cfg [] = [] \<and> idx_file out = []
        \<and> map snd (shard_files out) = [[]])"
proof -
  have h: "0 < chunk_size demo_cfg" by (simp add: demo_defs)
  have l3: "length (iter_lines [] demo_input) = 3" by (simp add: demo_defs str_defs)
  have c2: "chunk_size demo_cfg = 2" by (simp add: demo_defs)
  have ev: "cdxj_to_zipnum demo_lib demo_cfg demo_input =
     Inr \<lparr>shard_files = [(lit ''out/x.cdx.gz'', ''za {1}'' @ [LF] @ ''b {2}'' @ [LF] @ ''zc'')],
          idx_file = lit ''a'' @ [TAB] @ lit ''x-01'' @ [TAB] @ lit ''0'' @ [TAB] @ lit ''13'' @ [TAB] @ lit ''1'' @ [NL]
                   @ lit ''c'' @ [TAB] @ lit ''x-01'' @ [TAB] @ lit ''13'' @ [TAB] @ lit ''2'' @ [TAB] @ lit ''1'' @ [NL],
          loc_file = lit ''x'' @ [TAB] @ lit ''x.cdx.gz'' @ [NL]\<rparr>"
    by (simp add: run_defs str_defs demo_defs)
  from index_record_count [OF h, of demo_lib demo_input]
  obtain out where d: "cdxj_to_zipnum demo_lib demo_cfg demo_input = Inr out"
    "idx_file out = concat (map idx_line (run_entries demo_lib demo_cfg demo_input))"
    "list_all (\<lambda>r. r \<noteq> [] \<and> last r = NL) (map idx_line (run_entries demo_lib demo_cfg demo_input))"
    "length (map idx_line (run_entries demo_lib demo_cfg demo_input)) =
       length (stream_chunks_from_input demo_input (chunk_size demo_cfg))"
    "length (run_entries demo_lib demo_cfg demo_input) =
       length (stream_chunks_from_input demo_input (chunk_size demo_cfg))"
    "length (stream_chunks_from_input demo_input (chunk_size demo_cfg)) =
       (length (iter_lines [] demo_input) + nat (chunk_size demo_cfg) - 1) div nat (chunk_size demo_cfg)"
    by (elim exE conjE)
  from d(5,6) have two: "length (run_entries demo_lib demo_cfg demo_input) = 2"
    by (simp add: l3 c2)
  from d(4,6) have two': "length (map idx_line (run_entries demo_lib demo_cfg demo_input)) = 2"
    by (simp add: l3 c2)
  from d(1) ev have body: "idx_file out =
      lit ''a'' @ [TAB] @ lit ''x-01'' @ [TAB] @ lit ''0'' @ [TAB] @ lit ''13'' @ [TAB] @ lit ''1'' @ [NL]
      @ lit ''c'' @ [TAB] @ lit ''x-01'' @ [TAB] @ lit ''13'' @ [TAB] @ lit ''2'' @ [TAB] @ lit ''1'' @ [NL]"
    by auto
  have full: "\<exists>out. cdxj_to_zipnum demo_lib demo_cfg demo_input = Inr out
        \<and> idx_file out = concat (map idx_line (run_entries demo_lib demo_cfg demo_input))
        \<and> list_all (\<lambda>r. r \<noteq> [] \<and> last r = NL)
             (map idx_line (run_entries demo_lib demo_cfg demo_input))
        \<and> length (map idx_line (run_entries demo_lib demo_cfg demo_input)) = 2
        \<and> idx_file out =
             lit ''a'' @ [TAB] @ lit ''x-01'' @ [TAB] @ lit ''0'' @ [TAB] @ lit ''13'' @ [TAB] @ lit ''1'' @ [NL]
             @ lit ''c'' @ [TAB] @ lit ''x-01'' @ [TAB] @ lit ''13'' @ [TAB] @ lit ''2'' @ [TAB] @ lit ''1'' @ [NL]"
    by (intro exI [of _ out] conjI d(1) d(2) d(3) two' body)
  have z: "length (iter_lines [] []) = 0" by simp
  from index_record_count [OF h, of demo_lib "[]"]
  obtain out0 where o: "cdxj_to_zipnum demo_lib demo_cfg [] = Inr out0"
    "length (iter_lines [] []) = 0 \<longrightarrow>
       run_entries demo_lib demo_cfg [] = [] \<and> idx_file out0 = [] \<and> map snd (shard_files out0) = [[]]"
    by (elim exE conjE)
  from o(2) z have "run_entries demo_lib demo_cfg [] = [] \<and> idx_file out0 = [] \<and> map snd (shard_files out0) = [[]]"
    by (rule mp)
  with o(1) have c: "\<exists>out. cdxj_to_zipnum demo_lib demo_cfg [] = Inr out
        \<and> run_entries demo_lib demo_cfg [] = [] \<and> idx_file out = []
        \<and> map snd (shard_files out) = [[]]"
    by (intro exI [of _ out0]) simp
  show ?thesis by (intro conjI h full two z c)
qed

text \<open>
  Claim C6 does not hold as stated: with chunk size 0 the run on the example input does
  not fail. It writes one chunk for each of the three lines.
\<close>

theorem nonpositive_chunk_size_counterexample:
  "chunk_size (demo_cfg\<lparr>chunk_size := 0\<rparr>) \<le> 0
   \<and> cdxj_to_zipnum demo_lib (demo_cfg\<lparr>chunk_size := 0\<rparr>) demo_input =
     Inr \<lparr>shard_files = [(lit ''out/x.cdx.gz'', ''za {1}'' @ [LF] @ ''zb {2}'' @ [LF] @ ''zc'')],
          idx_file = lit ''a'' @ [TAB] @ lit ''x-01'' @ [TAB] @ lit ''0'' @ [TAB] @ lit ''7'' @ [TAB] @ lit ''1'' @ [NL]
                   @ lit ''b'' @ [TAB] @ lit ''x-01'' @ [TAB] @ lit ''7'' @ [TAB] @ lit ''7'' @ [TAB] @ lit ''1'' @ [NL]
                   @ lit ''c'' @ [TAB] @ lit ''x-01'' @ [TAB] @ lit ''14'' @ [TAB] @ lit ''2'' @ [TAB] @ lit ''1'' @ [NL],
          loc_file = lit ''x'' @ [TAB] @ lit ''x.cdx.gz'' @ [NL]\<rparr>"
  by (simp add: run_defs str_defs demo_defs)

text \<open>
  Claim C6 as amended, on the example input with chunk size -5.
\<close>

theorem nonpositive_chunk_size_runs_witness:
  "chunk_size (demo_cfg\<lparr>chunk_size := - 5\<rparr>) \<le> 0
   \<and> (\<exists>out. cdxj_to_zipnum demo_lib (demo_cfg\<lparr>chunk_size := - 5\<rparr>) demo_input = Inr out)
   \<and> map snd (stream_chunks_from_input demo_input (- 5)) =
       [[''a {1}'' @ [LF]], [''b {2}'' @ [LF]], [''c'']]
   \<and> cdxj_to_zipnum demo_lib (demo_cfg\<lparr>chunk_size := - 5\<rparr>) demo_input =
       cdxj_to_zipnum demo_lib (demo_cfg\<lparr>chunk_size := 1\<rparr>) demo_input"
proof -
  have h: "chunk_size (demo_cfg\<lparr>chunk_size := - 5\<rparr>) \<le> 0" by simp
  have ls: "iter_lines [] demo_input = [''a {1}'' @ [LF], ''b {2}'' @ [LF], ''c'']"
    by (simp add: demo_defs str_defs)
  note th = nonpositive_chunk_size_runs [OF h, of demo_lib demo_input]
  from th have a: "\<exists>out. cdxj_to_zipnum demo_lib (demo_cfg\<lparr>chunk_size := - 5\<rparr>) demo_input = Inr out"
    by (rule conjunct1)
  from th have "map snd (stream_chunks_from_input demo_input (chunk_size (demo_cfg\<lparr>chunk_size := - 5\<rparr>))) =
      map (\<lambda>l. [l]) (iter_lines [] demo_input)"
    by (elim conjE)
  then have b: "map snd (stream_chunks_from_input demo_input (- 5)) =
       [[''a {1}'' @ [LF]], [''b {2}'' @ [LF]], [''c'']]"
    by (simp add: ls)
  from th have "cdxj_to_zipnum demo_lib (demo_cfg\<lparr>chunk_size := - 5\<rparr>) demo_input =
      cdxj_to_zipnum demo_lib (demo_cfg\<lparr>chunk_size := - 5, chunk_size := 1\<rparr>) demo_input"
    by (elim conjE)
  then have c: "cdxj_to_zipnum demo_lib (demo_cfg\<lparr>chunk_size := - 5\<rparr>) demo_input =
       cdxj_to_zipnum demo_lib (demo_cfg\<lparr>chunk_size := 1\<rparr>) demo_input"
    by simp
  show ?thesis by (intro conjI h a b c)
qed

text \<open>
  Claim C7, on the example input: the run without buffer gives the index file of the run
  with it.
\<close>

theorem batched_index_equals_immediate_witness:
  "cdxj_to_zipnum_immediate demo_lib demo_cfg demo_input =
     Inr \<lparr>shard_files = [(lit ''out/x.cdx.gz'', ''za {1}'' @ [LF] @ ''b {2}'' @ [LF] @ ''zc'')],
          idx_file = lit ''a'' @ [TAB] @ lit ''x-01'' @ [TAB] @ lit ''0'' @ [TAB] @ lit ''13'' @ [TAB] @ lit ''1'' @ [NL]
                   @ lit ''c'' @ [TAB] @ lit ''x-01'' @ [TAB] @ lit ''13'' @ [TAB] @ lit ''2'' @ [TAB] @ lit ''1'' @ [NL],
          loc_file = lit ''x'' @ [TAB] @ lit ''x.cdx.gz'' @ [NL]\<rparr>"
proof -
  have "cdxj_to_zipnum demo_lib demo_cfg demo_input =
     Inr \<lparr>shard_files = [(lit ''out/x.cdx.gz'', ''za {1}'' @ [LF] @ ''b {2}'' @ [LF] @ ''zc'')],
          idx_file = lit ''a'' @ [TAB] @ lit ''x-01'' @ [TAB] @ lit ''0'' @ [TAB] @ lit ''13'' @ [TAB] @ lit ''1'' @ [NL]
                   @ lit ''c'' @ [TAB] @ lit ''x-01'' @ [TAB] @ lit ''13'' @ [TAB] @ lit ''2'' @ [TAB] @ lit ''1'' @ [NL],
          loc_file = lit ''x'' @ [TAB] @ lit ''x.cdx.gz'' @ [NL]\<rparr>"
    by (simp add: run_defs str_defs demo_defs)
  with batched_index_equals_immediate [of demo_lib demo_cfg demo_input] show ?thesis by simp
qed

text \<open>
  Claim C8, on a line with two braces and on a line of one space.
\<close>

theorem extract_prejson_key_witness:
  "LBRACE \<in> set (decode demo_lib (''  ab c {x} {'' @ [LF]))
   \<and> extract_prejson (decode demo_lib) (''  ab c {x} {'' @ [LF]) = lit ''ab c''
   \<and> trimmed_of (lit ''  ab c '') (lit ''ab c'')
   \<and> LBRACE \<notin> set (decode demo_lib '' '')
   \<and> extract_prejson (decode demo_lib) '' '' = []"
proof -
  let ?l = "''  ab c {x} {'' @ [LF]"
  have m: "LBRACE \<in> set (decode demo_lib ?l)"
    by (simp add: demo_defs str_defs)
  have t: "takeWhile (\<lambda>c. c \<noteq> LBRACE) (decode demo_lib ?l) = lit ''  ab c ''"
    by (simp add: demo_defs str_defs)
  have k: "strip (lit ''  ab c '') = lit ''ab c''"
    by (simp add: str_defs)
  have n: "LBRACE \<notin> set (decode demo_lib '' '')"
    by (simp add: demo_defs str_defs)
  have e: "strip (decode demo_lib '' '') = []"
    by (simp add: demo_defs str_defs)
  note th = extract_prejson_key [of "decode demo_lib" ?l]
  from th have both: "extract_prejson (decode demo_lib) ?l =
      strip (takeWhile (\<lambda>c. c \<noteq> LBRACE) (decode demo_lib ?l))
    \<and> trimmed_of (takeWhile (\<lambda>c. c \<noteq> LBRACE) (decode demo_lib ?l))
      (extract_prejson (decode demo_lib) ?l)"
    unfolding if_P [OF m] .
  from both have "extract_prejson (decode demo_lib) ?l =
      strip (takeWhile (\<lambda>c. c \<noteq> LBRACE) (decode demo_lib ?l))"
    by (rule conjunct1)
  then have a1: "extract_prejson (decode demo_lib) ?l = lit ''ab c''"
    by (simp only: t k)
  from both have "trimmed_of (takeWhile (\<lambda>c. c \<noteq> LBRACE) (decode demo_lib ?l))
      (extract_prejson (decode demo_lib) ?l)"
    by (rule conjunct2)
  then have a2: "trimmed_of (lit ''  ab c '') (lit ''ab c'')"
    by (simp only: t a1)
  from extract_prejson_key [of "decode demo_lib" "'' ''"]
  have "extract_prejson (decode demo_lib) '' '' = strip (decode demo_lib '' '')
    \<and> trimmed_of (decode demo_lib '' '') (extract_prejson (decode demo_lib) '' '')"
    unfolding if_not_P [OF n] .
  then have "extract_prejson (decode demo_lib) '' '' = strip (decode demo_lib '' '')"
    by (rule conjunct1)
  then have b: "extract_prejson (decode demo_lib) '' '' = []"
    by (simp only: e)
  show ?thesis by (intro conjI m a1 a2 n b)
qed

text \<open>
  Claim C9, on an input of one line with a threshold of 0 MB: two shards, the second one
  empty.
\<close>

theorem rollover_after_last_chunk_witness:
  "stream_chunks_from_input (''a'' @ [LF]) (chunk_size (demo_cfg\<lparr>shard_size_mb := Finite 0\<rparr>))
      = [] @ [(0, [''a'' @ [LF]])]
   \<and> loop demo_lib (demo_cfg\<lparr>shard_size_mb := Finite 0\<rparr>)
        (initial_state demo_lib (demo_cfg\<lparr>shard_size_mb := Finite 0\<rparr>)) []
      = Inr (initial_state demo_lib (demo_cfg\<lparr>shard_size_mb := Finite 0\<rparr>))
   \<and> reached (tell (write_chunk demo_lib (demo_cfg\<lparr>shard_size_mb := Finite 0\<rparr>)
        (initial_state demo_lib (demo_cfg\<lparr>shard_size_mb := Finite 0\<rparr>)) [''a'' @ [LF]]))
        (target_shard_size (shard_size_mb (demo_cfg\<lparr>shard_size_mb := Finite 0\<rparr>)))
   \<and> (\<exists>out. cdxj_to_zipnum demo_lib (demo_cfg\<lparr>shard_size_mb := Finite 0\<rparr>) (''a'' @ [LF]) = Inr out
        \<and> map fst (shard_files out) = [lit ''out/x-01.cdx.gz'', lit ''out/x-02.cdx.gz'']
        \<and> snd (last (shard_files out)) = []
        \<and> loc_file out = lit ''x-01'' @ [TAB] @ lit ''x-01.cdx.gz'' @ [NL]
                        @ lit ''x-02'' @ [TAB] @ lit ''x-02.cdx.gz'' @ [NL]
        \<and> list_all (\<lambda>e. entry_number e < 2)
             (run_entries demo_lib (demo_cfg\<lparr>shard_size_mb := Finite 0\<rparr>) (''a'' @ [LF])))"
proof -
  let ?cfg = "demo_cfg\<lparr>shard_size_mb := Finite 0\<rparr>"
  have h1: "stream_chunks_from_input (''a'' @ [LF]) (chunk_size ?cfg) = [] @ [(0, [''a'' @ [LF]])]"
    by (simp add: run_defs str_defs demo_defs)
  have h2: "loop demo_lib ?cfg (initial_state demo_lib ?cfg) [] = Inr (initial_state demo_lib ?cfg)"
    by simp
  have h3: "reached (tell (write_chunk demo_lib ?cfg (initial_state demo_lib ?cfg) [''a'' @ [LF]]))
        (target_shard_size (shard_size_mb ?cfg))"
    by (simp add: run_defs str_defs demo_defs)
  have c0: "current_shard (initial_state demo_lib ?cfg) = 0" by (simp add: initial_state_def)
  have up: "[0 ..< 0 + 2] = [0, Suc 0]" by (simp add: upt_conv_Cons)
  have p0: "get_shard_path demo_lib ?cfg 0 False = lit ''out/x-01.cdx.gz''"
    by (simp add: run_defs str_defs demo_defs)
  have p1: "get_shard_path demo_lib ?cfg (Suc 0) False = lit ''out/x-02.cdx.gz''"
    by (simp add: run_defs str_defs demo_defs)
  have l0: "loc_line (lit ''out/x-01.cdx.gz'') = lit ''x-01'' @ [TAB] @ lit ''x-01.cdx.gz'' @ [NL]"
    by (simp add: run_defs str_defs)
  have l1: "loc_line (lit ''out/x-02.cdx.gz'') = lit ''x-02'' @ [TAB] @ lit ''x-02.cdx.gz'' @ [NL]"
    by (simp add: run_defs str_defs)
  from rollover_after_last_chunk [OF h1 h2 h3]
  obtain out where o: "cdxj_to_zipnum demo_lib ?cfg (''a'' @ [LF]) = Inr out"
    "length (shard_files out) = current_shard (initial_state demo_lib ?cfg) + 2"
    "map fst (shard_files out) =
       map (\<lambda>n. get_shard_path demo_lib ?cfg n False) [0 ..< current_shard (initial_state demo_lib ?cfg) + 2]"
    "snd (last (shard_files out)) = []"
    "loc_file out =
       concat (map (\<lambda>n. loc_line (get_shard_path demo_lib ?cfg n False))
         [0 ..< current_shard (initial_state demo_lib ?cfg) + 2])"
    "list_all (\<lambda>e. entry_number e < int (length (shard_files out))) (run_entries demo_lib ?cfg (''a'' @ [LF]))"
    by (elim exE conjE)
  from o(2) have len: "length (shard_files out) = 2" by (simp only: c0 add_0)
  from o(3) have fs: "map fst (shard_files out) = [lit ''out/x-01.cdx.gz'', lit ''out/x-02.cdx.gz'']"
    by (simp only: c0 up list.map p0 p1)
  from o(5) have lc: "loc_file out = lit ''x-01'' @ [TAB] @ lit ''x-01.cdx.gz'' @ [NL]
                        @ lit ''x-02'' @ [TAB] @ lit ''x-02.cdx.gz'' @ [NL]"
    by (simp only: c0 up list.map p0 p1 l0 l1 concat.simps append_Nil2 append_assoc)
  from o(6) have en: "list_all (\<lambda>e. entry_number e < 2) (run_entries demo_lib ?cfg (''a'' @ [LF]))"
    by (simp add: len)
  have c: "\<exists>out. cdxj_to_zipnum demo_lib ?cfg (''a'' @ [LF]) = Inr out
        \<and> map fst (shard_files out) = [lit ''out/x-01.cdx.gz'', lit ''out/x-02.cdx.gz'']
        \<and> snd (last (shard_files out)) = []
        \<and> loc_file out = lit ''x-01'' @ [TAB] @ lit ''x-01.cdx.gz'' @ [NL]
                        @ lit ''x-02'' @ [TAB] @ lit ''x-02.cdx.gz'' @ [NL]
        \<and> list_all (\<lambda>e. entry_number e < 2) (run_entries demo_lib ?cfg (''a'' @ [LF]))"
    by (intro exI [of _ out] conjI o(1) fs o(4) lc en)
  show ?thesis by (intro conjI h1 h2 h3 c)
qed

text \<open>
  Claim C10, on the example input: the keys are those of the first and of the third line.
\<close>

theorem index_key_first_line_witness:
  "map entry_key (run_entries demo_lib demo_cfg demo_input) = [lit ''a'', lit ''c'']"
proof -
  have c: "stream_chunks_from_input demo_input (chunk_size demo_cfg) =
     [(0, [''a {1}'' @ [LF], ''b {2}'' @ [LF]]), (1, [''c''])]"
    by (simp add: run_defs str_defs demo_defs)
  have k1: "extract_prejson (decode demo_lib) (''a {1}'' @ [LF]) = lit ''a''"
    by (simp add: str_defs demo_defs)
  have k2: "extract_prejson (decode demo_lib) ''c'' = lit ''c''"
    by (simp add: str_defs demo_defs)
  from index_key_first_line [of demo_lib demo_cfg demo_input]
  obtain out where "map entry_key (run_entries demo_lib demo_cfg demo_input) =
      map (\<lambda>p. extract_prejson (decode demo_lib) (hd (snd p)))
        (stream_chunks_from_input demo_input (chunk_size demo_cfg))"
    by (elim exE conjE)
  then show ?thesis
    by (simp only: c list.map snd_conv list.sel k1 k2)
qed

text \<open>
  Claim C4 does not hold of the code. In a run that ends with a single shard, the index lines
  were written with the numbered name of the shard before the rename of lines 215-218: on
  the example input the index names the shard \<open>x-01\<close> in both of its lines, the only shard
  file is \<open>out/x.cdx.gz\<close>, whose name without extension is \<open>x\<close>, and the location file
  lists \<open>x\<close> only.
\<close>

theorem single_shard_index_names_numbered_shard:
  "cdxj_to_zipnum demo_lib demo_cfg demo_input =
     Inr \<lparr>shard_files = [(lit ''out/x.cdx.gz'', ''za {1}'' @ [LF] @ ''b {2}'' @ [LF] @ ''zc'')],
          idx_file = lit ''a'' @ [TAB] @ lit ''x-01'' @ [TAB] @ lit ''0'' @ [TAB] @ lit ''13'' @ [TAB] @ lit ''1'' @ [NL]
                   @ lit ''c'' @ [TAB] @ lit ''x-01'' @ [TAB] @ lit ''13'' @ [TAB] @ lit ''2'' @ [TAB] @ lit ''1'' @ [NL],
          loc_file = lit ''x'' @ [TAB] @ lit ''x.cdx.gz'' @ [NL]\<rparr>
   \<and> map entry_shard (run_entries demo_lib demo_cfg demo_input) = [lit ''x-01'', lit ''x-01'']
   \<and> str_replace (basename (lit ''out/x.cdx.gz'')) (lit ''.cdx.gz'') [] = lit ''x''"
  by (simp add: run_defs str_defs demo_defs)

text \<open>
  Claim C5 does not hold of the code. With the base name \<open>1\<close> the numbered path
  \<open>out/1-01.cdx.gz\<close> ends with \<open>1.cdx.gz\<close>, so the test of line 215 finds the shard
  already renamed: the run produces exactly one shard, and it keeps its numbered name, in
  the shard file and in the location file.
\<close>

theorem single_shard_keeps_numbered_name:
  "cdxj_to_zipnum demo_lib (demo_cfg\<lparr>base := Some (lit ''1'')\<rparr>) [] =
     Inr \<lparr>shard_files = [(lit ''out/1-01.cdx.gz'', [])],
          idx_file = [],
          loc_file = lit ''1-01'' @ [TAB] @ lit ''1-01.cdx.gz'' @ [NL]\<rparr>"
  by (simp add: run_defs str_defs demo_defs)

end
